theory Spec2Isabelle
  imports Main "HOL-Library.Word"
begin

text \<open>
  A model of the macro console \<^verbatim>\<open>main.cpp\<close>: the data model, the two text codecs
  (configuration and macros), the replay engine, interactive creation and the menu
  handlers that change the store or the configuration, followed by the properties of the
  specification that were checked against it.
\<close>

section \<open>Data model (main.cpp, lines 14-34)\<close>

text \<open>
  The program's \<^verbatim>\<open>int\<close> is a 32-bit two's complement integer; it is read with
  \<open>sint\<close>. The fields \<^verbatim>\<open>type\<close>, \<^verbatim>\<open>a\<close>, \<^verbatim>\<open>b\<close> of \<^verbatim>\<open>struct Action\<close> carry the prefix
  \<open>act_\<close> here, so that the one-letter names stay free for variables.
\<close>

type_synonym cint = "32 word"

datatype ActionType = Move | Click | Key | Delay

record Action =
  act_type :: ActionType
  act_a :: cint
  act_b :: cint

record Macro =
  name :: string
  actions :: "Action list"

record AppConfig =
  default_delay_ms :: cint

text \<open>The braced initialiser \<^verbatim>\<open>{ActionType::Move, dx, dy}\<close>.\<close>

definition mk_action :: "ActionType \<Rightarrow> cint \<Rightarrow> cint \<Rightarrow> Action" where
  "mk_action t x y = \<lparr>act_type = t, act_a = x, act_b = y\<rparr>"

text \<open>\<^verbatim>\<open>Macro{}\<close>: empty name, no actions.\<close>

definition Macro_init :: Macro where
  "Macro_init = \<lparr>name = [], actions = []\<rparr>"

text \<open>\<^verbatim>\<open>AppConfig config;\<close> with the member initialiser \<^verbatim>\<open>default_delay_ms = 50\<close>.\<close>

definition AppConfig_init :: AppConfig where
  "AppConfig_init = \<lparr>default_delay_ms = 50\<rparr>"

section \<open>Input streams\<close>

text \<open>
  An input stream (\<^verbatim>\<open>std::ifstream\<close>, \<^verbatim>\<open>std::istringstream\<close>, \<^verbatim>\<open>std::cin\<close>) is the
  text that has not been read yet. A failed extraction is \<open>None\<close>. A file that cannot
  be opened is \<open>None\<close> of type \<open>string option\<close>. The text of a file is the sequence of
  characters the stream delivers and accepts; the translation of line ends that the
  platform applies between that text and the bytes on disk is not part of the model.
\<close>

definition newline :: char where
  "newline = CHR 0x0A"

text \<open>\<^verbatim>\<open>isspace\<close> in the "C" locale: space, \<^verbatim>\<open>\t \n \v \f \r\<close>.\<close>

definition isspace :: "char \<Rightarrow> bool" where
  "isspace c = (c = CHR '' '' \<or> c = CHR 0x09 \<or> c = CHR 0x0A \<or> c = CHR 0x0B
                \<or> c = CHR 0x0C \<or> c = CHR 0x0D)"

text \<open>A decimal digit: a character code from 48 (\<open>0\<close>) to 57 (\<open>9\<close>).\<close>

definition isdigit :: "char \<Rightarrow> bool" where
  "isdigit c = (48 \<le> (of_char c :: nat) \<and> (of_char c :: nat) \<le> 57)"

definition digit_value :: "char \<Rightarrow> nat" where
  "digit_value c = of_char c - 48"

text \<open>
  \<^verbatim>\<open>std::getline(in, line)\<close>: fails when nothing is left; otherwise the characters up to
  the next line feed are the line, and the line feed is consumed with them.
\<close>

definition getline :: "string \<Rightarrow> (string \<times> string) option" where
  "getline s =
     (if s = [] then None
      else Some (takeWhile (\<lambda>c. c \<noteq> newline) s, drop 1 (dropWhile (\<lambda>c. c \<noteq> newline) s)))"

text \<open>\<^verbatim>\<open>iss >> token\<close> for a \<^verbatim>\<open>std::string\<close>: skip white space, take the run of
  characters that are not white space; fails when there is none.\<close>

definition extract_string :: "string \<Rightarrow> (string \<times> string) option" where
  "extract_string s =
     (let s' = dropWhile isspace s in
      if s' = [] then None
      else Some (takeWhile (\<lambda>c. \<not> isspace c) s', dropWhile (\<lambda>c. \<not> isspace c) s'))"

text \<open>
  The integer syntax shared by \<^verbatim>\<open>iss >> dx\<close> and \<^verbatim>\<open>std::stoi\<close> (base 10): white space,
  an optional sign, a non-empty run of decimal digits. The result is the unbounded value
  and the text after the digits.
\<close>

definition scan_sign :: "string \<Rightarrow> bool \<times> string" where
  "scan_sign s =
     (case s of
        [] \<Rightarrow> (False, [])
      | c # r \<Rightarrow> if c = CHR ''-'' then (True, r) else if c = CHR ''+'' then (False, r)
                 else (False, s))"

definition digits_value :: "string \<Rightarrow> nat" where
  "digits_value ds = foldl (\<lambda>n c. 10 * n + digit_value c) 0 ds"

definition scan_integer :: "string \<Rightarrow> (int \<times> string) option" where
  "scan_integer s =
     (let (neg, s1) = scan_sign (dropWhile isspace s);
          ds = takeWhile isdigit s1
      in if ds = [] then None
         else Some (if neg then - int (digits_value ds) else int (digits_value ds),
                    dropWhile isdigit s1))"

definition in_int_range :: "int \<Rightarrow> bool" where
  "in_int_range v = (- (2 ^ 31) \<le> v \<and> v \<le> 2 ^ 31 - 1)"

text \<open>\<^verbatim>\<open>iss >> dx\<close> for an \<^verbatim>\<open>int\<close>: a value outside the range of \<^verbatim>\<open>int\<close> sets the
  fail bit like a missing number does.\<close>

definition extract_int :: "string \<Rightarrow> (cint \<times> string) option" where
  "extract_int s =
     (case scan_integer s of
        None \<Rightarrow> None
      | Some (v, r) \<Rightarrow> if in_int_range v then Some (word_of_int v, r) else None)"

text \<open>The exceptions the program can meet; both derive from \<^verbatim>\<open>std::exception\<close>.\<close>

datatype exn = invalid_argument | out_of_range

definition stoi :: "string \<Rightarrow> exn + cint" where
  "stoi s =
     (case scan_integer s of
        None \<Rightarrow> Inl invalid_argument
      | Some (v, r) \<Rightarrow> if in_int_range v then Inr (word_of_int v) else Inl out_of_range)"

text \<open>\<^verbatim>\<open>line.find('=')\<close>; \<open>None\<close> is \<^verbatim>\<open>npos\<close>.\<close>

definition find_char :: "string \<Rightarrow> char \<Rightarrow> nat option" where
  "find_char s c = (if c \<in> set s then Some (length (takeWhile (\<lambda>x. x \<noteq> c) s)) else None)"

text \<open>\<^verbatim>\<open>s.substr(pos, n)\<close> and \<^verbatim>\<open>s.substr(pos)\<close> throw when \<open>pos\<close> is beyond the end.\<close>

definition substr2 :: "string \<Rightarrow> nat \<Rightarrow> nat \<Rightarrow> exn + string" where
  "substr2 s pos n = (if length s < pos then Inl out_of_range else Inr (take n (drop pos s)))"

definition substr1 :: "string \<Rightarrow> nat \<Rightarrow> exn + string" where
  "substr1 s pos = (if length s < pos then Inl out_of_range else Inr (drop pos s))"

section \<open>Output of integers\<close>

text \<open>\<^verbatim>\<open>out << action.a\<close>: decimal digits, a minus sign for a negative value.\<close>

fun show_nat :: "nat \<Rightarrow> string" where
  "show_nat n =
     (if n < 10 then [char_of (48 + n)]
      else show_nat (n div 10) @ [char_of (48 + n mod 10)])"

definition show_int :: "int \<Rightarrow> string" where
  "show_int i = (if i < 0 then CHR ''-'' # show_nat (nat (- i)) else show_nat (nat i))"

definition put_int :: "cint \<Rightarrow> string" where
  "put_int w = show_int (sint w)"

section \<open>Configuration file (LoadConfig, lines 36-59)\<close>

definition LoadConfig_line :: "AppConfig \<Rightarrow> string \<Rightarrow> exn + AppConfig" where
  "LoadConfig_line config line =
     (case find_char line CHR ''='' of
        None \<Rightarrow> Inr config
      | Some pos \<Rightarrow>
          (case substr2 line 0 pos of
             Inl e \<Rightarrow> Inl e
           | Inr key \<Rightarrow>
               (case substr1 line (pos + 1) of
                  Inl e \<Rightarrow> Inl e
                | Inr val \<Rightarrow>
                    if key = ''default_delay_ms'' then
                      (case stoi val of
                         Inr v \<Rightarrow> Inr (config\<lparr>default_delay_ms := v\<rparr>)
                       | Inl e \<Rightarrow> Inr (config\<lparr>default_delay_ms := 50\<rparr>))
                    else Inr config)))"

function LoadConfig_loop :: "string \<Rightarrow> AppConfig \<Rightarrow> exn + AppConfig" where
  "LoadConfig_loop inp config =
     (case getline inp of
        None \<Rightarrow> Inr config
      | Some (line, inp') \<Rightarrow>
          (case LoadConfig_line config line of
             Inl e \<Rightarrow> Inl e
           | Inr config' \<Rightarrow> LoadConfig_loop inp' config'))"
  by pat_completeness auto
termination
proof (relation "measure (\<lambda>(inp, config). length inp)")
  fix inp :: string and config config' :: AppConfig and x2 line inp'
  assume "getline inp = Some x2" and "(line, inp') = x2"
  then have ne: "inp \<noteq> []" and inp': "inp' = drop 1 (dropWhile (\<lambda>c. c \<noteq> newline) inp)"
    by (auto simp: getline_def split: if_splits)
  have "length (dropWhile (\<lambda>c. c \<noteq> newline) inp) \<le> length inp"
    by (rule length_dropWhile_le)
  with ne inp' have "length inp' < length inp"
    by (cases inp) auto
  then show "((inp', config'), (inp, config)) \<in> measure (\<lambda>(inp, config). length inp)"
    by simp
qed simp

definition LoadConfig :: "string option \<Rightarrow> exn + AppConfig" where
  "LoadConfig file =
     (case file of
        None \<Rightarrow> Inr AppConfig_init
      | Some inp \<Rightarrow> LoadConfig_loop inp AppConfig_init)"

text \<open>\<^verbatim>\<open>SaveConfig\<close> (lines 61-68): the new content of the file, \<open>None\<close> when it cannot
  be opened for writing.\<close>

definition SaveConfig :: "bool \<Rightarrow> AppConfig \<Rightarrow> string option" where
  "SaveConfig writable config =
     (if \<not> writable then None
      else Some (''default_delay_ms='' @ put_int (default_delay_ms config) @ [newline]))"

section \<open>Macro file: decoding (LoadMacros, lines 70-132)\<close>

text \<open>
  \<^verbatim>\<open>std::string token; iss >> token;\<close> on a fresh string stream over the line: the token
  and the stream after it. When the line holds white space only the extraction fails, the
  token stays empty and the stream is in a failed state, from which nothing is read.
\<close>

definition first_token :: "string \<Rightarrow> string \<times> string" where
  "first_token line = (case extract_string line of None \<Rightarrow> ([], []) | Some (t, r) \<Rightarrow> (t, r))"

text \<open>
  Lines 92-95: \<^verbatim>\<open>std::getline(iss, current.name)\<close>, which leaves the name as it is when
  the stream is at its end, then the removal of one leading space.
\<close>

definition read_name :: "string \<Rightarrow> string \<Rightarrow> string" where
  "read_name iss old_name =
     (let nm = (case getline iss of None \<Rightarrow> old_name | Some (l, r) \<Rightarrow> l)
      in if nm \<noteq> [] \<and> hd nm = CHR '' '' then drop 1 nm else nm)"

text \<open>Lines 103-125: the action a step line appends, \<open>None\<close> when it appends none.\<close>

definition step_action :: "string \<Rightarrow> string \<Rightarrow> Action option" where
  "step_action token iss =
     (if token = ''move'' then
        (case extract_int iss of
           None \<Rightarrow> None
         | Some (dx, iss1) \<Rightarrow>
             (case extract_int iss1 of
                None \<Rightarrow> None
              | Some (dy, iss2) \<Rightarrow> Some (mk_action Move dx dy)))
      else if token = ''click'' then
        (case extract_string iss of
           None \<Rightarrow> None
         | Some (button, iss1) \<Rightarrow>
             Some (mk_action Click (if button = ''right'' then 1 else 0) 0))
      else if token = ''key'' then
        (case extract_int iss of
           None \<Rightarrow> None
         | Some (vk, iss1) \<Rightarrow> Some (mk_action Key vk 0))
      else if token = ''delay'' then
        (case extract_int iss of
           None \<Rightarrow> None
         | Some (ms, iss1) \<Rightarrow> Some (mk_action Delay ms 0))
      else None)"

text \<open>The locals of the loop: \<^verbatim>\<open>macros\<close>, \<^verbatim>\<open>current\<close>, \<^verbatim>\<open>in_macro\<close>.\<close>

type_synonym load_state = "Macro list \<times> Macro \<times> bool"

fun LoadMacros_line :: "load_state \<Rightarrow> string \<Rightarrow> load_state" where
  "LoadMacros_line (macros, current, in_macro) line =
     (if line = [] then (macros, current, in_macro)
      else
        let (token, iss) = first_token line in
        if token = ''macro'' then
          (let (macros1, current1) =
                 (if in_macro then (macros @ [current], Macro_init) else (macros, current))
           in (macros1, current1\<lparr>name := read_name iss (name current1)\<rparr>, True))
        else if token = ''end'' then
          (if in_macro then (macros @ [current], Macro_init, False)
           else (macros, current, in_macro))
        else if in_macro then
          (case step_action token iss of
             None \<Rightarrow> (macros, current, in_macro)
           | Some act \<Rightarrow> (macros, current\<lparr>actions := actions current @ [act]\<rparr>, in_macro))
        else (macros, current, in_macro))"

function LoadMacros_loop :: "string \<Rightarrow> load_state \<Rightarrow> load_state" where
  "LoadMacros_loop inp st =
     (case getline inp of
        None \<Rightarrow> st
      | Some (line, inp') \<Rightarrow> LoadMacros_loop inp' (LoadMacros_line st line))"
  by pat_completeness auto
termination
proof (relation "measure (\<lambda>(inp, st). length inp)")
  fix inp :: string and st :: load_state and x2 line inp'
  assume "getline inp = Some x2" and "(line, inp') = x2"
  then have ne: "inp \<noteq> []" and inp': "inp' = drop 1 (dropWhile (\<lambda>c. c \<noteq> newline) inp)"
    by (auto simp: getline_def split: if_splits)
  have "length (dropWhile (\<lambda>c. c \<noteq> newline) inp) \<le> length inp"
    by (rule length_dropWhile_le)
  with ne inp' have "length inp' < length inp"
    by (cases inp) auto
  then show "((inp', LoadMacros_line st line), (inp, st)) \<in> measure (\<lambda>(inp, st). length inp)"
    by simp
qed simp

text \<open>Lines 128-131: a block still open at the end of the input is emitted.\<close>

definition LoadMacros_finish :: "load_state \<Rightarrow> Macro list" where
  "LoadMacros_finish st =
     (case st of (macros, current, in_macro) \<Rightarrow>
        if in_macro then macros @ [current] else macros)"

definition LoadMacros :: "string option \<Rightarrow> Macro list" where
  "LoadMacros file =
     (case file of
        None \<Rightarrow> []
      | Some inp \<Rightarrow> LoadMacros_finish (LoadMacros_loop inp ([], Macro_init, False)))"

section \<open>Macro file: encoding (SaveMacros, lines 134-160)\<close>

definition put_action :: "Action \<Rightarrow> string" where
  "put_action action =
     (case act_type action of
        Move \<Rightarrow> ''move '' @ put_int (act_a action) @ '' '' @ put_int (act_b action) @ [newline]
      | Click \<Rightarrow> ''click '' @ (if act_a action = 1 then ''right'' else ''left'') @ [newline]
      | Key \<Rightarrow> ''key '' @ put_int (act_a action) @ [newline]
      | Delay \<Rightarrow> ''delay '' @ put_int (act_a action) @ [newline])"

definition put_macro :: "Macro \<Rightarrow> string" where
  "put_macro macro =
     ''macro '' @ name macro @ [newline] @ concat (map put_action (actions macro))
       @ ''end'' @ [newline]"

text \<open>The new content of the macro file, \<open>None\<close> when it cannot be opened for writing.\<close>

definition SaveMacros :: "bool \<Rightarrow> Macro list \<Rightarrow> string option" where
  "SaveMacros writable macros =
     (if \<not> writable then None else Some (concat (map put_macro macros)))"

section \<open>Replay (lines 184-239)\<close>

text \<open>
  What the program does to the outside, in order: a call of \<^verbatim>\<open>SendInput\<close> with its array
  of events, a call of \<^verbatim>\<open>Sleep\<close> with its \<^verbatim>\<open>DWORD\<close> argument (the 32 bits of the \<^verbatim>\<open>int\<close>
  passed), a text written to \<^verbatim>\<open>std::cout\<close>.
\<close>

datatype INPUT =
  MOUSE_MOVE cint cint
  | MOUSE_LEFTDOWN | MOUSE_LEFTUP | MOUSE_RIGHTDOWN | MOUSE_RIGHTUP
  | KEY_DOWN "16 word" | KEY_UP "16 word"

datatype effect = SendInput "INPUT list" | Sleep "32 word" | Cout string

definition SendMouseMove :: "cint \<Rightarrow> cint \<Rightarrow> effect list" where
  "SendMouseMove dx dy = [SendInput [MOUSE_MOVE dx dy]]"

definition SendMouseClick :: "bool \<Rightarrow> effect list" where
  "SendMouseClick right =
     (if right then [SendInput [MOUSE_RIGHTDOWN, MOUSE_RIGHTUP]]
      else [SendInput [MOUSE_LEFTDOWN, MOUSE_LEFTUP]])"

definition SendKey :: "cint \<Rightarrow> effect list" where
  "SendKey vk = [SendInput [KEY_DOWN (ucast vk), KEY_UP (ucast vk)]]"

text \<open>The body of the loop over the actions: the effects so far, extended.\<close>

definition RunMacro_action :: "AppConfig \<Rightarrow> effect list \<Rightarrow> Action \<Rightarrow> effect list" where
  "RunMacro_action config sofar action =
     (case act_type action of
        Move \<Rightarrow>
          sofar @ SendMouseMove (act_a action) (act_b action) @ [Sleep (default_delay_ms config)]
      | Click \<Rightarrow> sofar @ SendMouseClick (act_a action = 1) @ [Sleep (default_delay_ms config)]
      | Key \<Rightarrow> sofar @ SendKey (act_a action) @ [Sleep (default_delay_ms config)]
      | Delay \<Rightarrow> sofar @ [Sleep (act_a action)])"

definition RunMacro :: "Macro \<Rightarrow> AppConfig \<Rightarrow> effect list" where
  "RunMacro macro config =
     foldl (RunMacro_action config) [Cout (''Running macro: '' @ name macro @ [newline])]
       (actions macro)
     @ [Cout (''Done.'' @ [newline])]"

text \<open>The calls that reach the input sink or wait: everything but console output.\<close>

fun is_sink_call :: "effect \<Rightarrow> bool" where
  "is_sink_call (Cout t) = False"
| "is_sink_call e = True"

section \<open>Console input (lines 241-259)\<close>

text \<open>
  \<^verbatim>\<open>std::cin\<close> is the text not read yet, as for files; each function returns what is left
  of it. The prompts written to \<^verbatim>\<open>std::cout\<close> are left out.
\<close>

definition ReadIndex :: "string \<Rightarrow> cint \<times> string" where
  "ReadIndex cin =
     (case getline cin of
        None \<Rightarrow> (- 1, cin)
      | Some (input, cin') \<Rightarrow>
          (case stoi input of
             Inr v \<Rightarrow> (v, cin')
           | Inl e \<Rightarrow> (- 1, cin')))"

definition ReadLine :: "string \<Rightarrow> string \<times> string" where
  "ReadLine cin =
     (case getline cin of
        None \<Rightarrow> ([], cin)
      | Some (input, cin') \<Rightarrow> (input, cin'))"

section \<open>Interactive creation (CreateMacro, lines 261-311)\<close>

definition push_action :: "Macro \<Rightarrow> Action \<Rightarrow> Macro" where
  "push_action macro act = macro\<lparr>actions := actions macro @ [act]\<rparr>"

text \<open>
  One turn of the loop after a step name other than \<open>done\<close> has been read: the macro and
  the input with which the loop continues. Both \<^verbatim>\<open>continue\<close> statements and the end of the
  loop body lead back to the prompt.
\<close>

definition CreateMacro_step :: "Macro \<Rightarrow> string \<Rightarrow> string \<Rightarrow> Macro \<times> string" where
  "CreateMacro_step macro step cin1 =
     (if step = ''move'' then
        (case ReadIndex cin1 of (dx, cin2) \<Rightarrow>
           (case ReadIndex cin2 of (dy, cin3) \<Rightarrow>
              if dx = - 1 \<or> dy = - 1 then (macro, cin3)
              else (push_action macro (mk_action Move dx dy), cin3)))
      else if step = ''click'' then
        (case ReadLine cin1 of (button, cin2) \<Rightarrow>
           (push_action macro (mk_action Click (if button = ''right'' then 1 else 0) 0), cin2))
      else if step = ''key'' then
        (case ReadIndex cin1 of (vk, cin2) \<Rightarrow>
           if vk = - 1 then (macro, cin2)
           else (push_action macro (mk_action Key vk 0), cin2))
      else if step = ''delay'' then
        (case ReadIndex cin1 of (ms, cin2) \<Rightarrow>
           if ms = - 1 then (macro, cin2)
           else (push_action macro (mk_action Delay ms 0), cin2))
      else (macro, cin1))"

function CreateMacro_loop :: "Macro \<Rightarrow> string \<Rightarrow> Macro \<times> string" where
  "CreateMacro_loop macro cin =
     (case getline cin of
        None \<Rightarrow> (macro, cin)
      | Some (step, cin1) \<Rightarrow>
          if step = ''done'' then (macro, cin1)
          else
            (case CreateMacro_step macro step cin1 of (macro', cin') \<Rightarrow>
               CreateMacro_loop macro' cin'))"
  by pat_completeness auto
termination
proof -
  have gl: "length r < length s" if "getline s = Some (l, r)" for s l r
  proof -
    from that have ne: "s \<noteq> []" and r: "r = drop 1 (dropWhile (\<lambda>c. c \<noteq> newline) s)"
      by (auto simp: getline_def split: if_splits)
    have "length (dropWhile (\<lambda>c. c \<noteq> newline) s) \<le> length s"
      by (rule length_dropWhile_le)
    with ne r show ?thesis by (cases s) auto
  qed
  have ri: "length (snd (ReadIndex s)) \<le> length s" for s
    using gl [of s] by (fastforce simp: ReadIndex_def split: option.splits sum.splits)
  have rl: "length (snd (ReadLine s)) \<le> length s" for s
    using gl [of s] by (fastforce simp: ReadLine_def split: option.splits)
  have ri2: "length (snd (ReadIndex (snd (ReadIndex s)))) \<le> length s" for s
    using ri [of s] ri [of "snd (ReadIndex s)"] by (rule order_trans [rotated])
  have st: "length (snd (CreateMacro_step macro step s)) \<le> length s" for macro step s
    by (simp add: CreateMacro_step_def case_prod_beta ri rl ri2)
  show ?thesis
  proof (relation "measure (\<lambda>(macro, cin). length cin)", goal_cases)
    case 1
    show ?case by simp
  next
    case (2 macro cin x2 step cin1 macro' cin')
    then have g: "getline cin = Some (step, cin1)"
      and c: "cin' = snd (CreateMacro_step macro step cin1)"
      by (simp, metis snd_conv)
    show ?case
      using gl [OF g] st [of macro step cin1] c by simp
  qed
qed

definition CreateMacro :: "Macro list \<Rightarrow> string \<Rightarrow> Macro list \<times> string" where
  "CreateMacro macros cin =
     (case ReadLine cin of (nm, cin1) \<Rightarrow>
        if nm = [] then (macros, cin1)
        else
          (case CreateMacro_loop \<lparr>name = nm, actions = []\<rparr> cin1 of (macro, cin2) \<Rightarrow>
             (macros @ [macro], cin2)))"

section \<open>Menu handlers of main (lines 314-373)\<close>

text \<open>\<^verbatim>\<open>macros.erase(macros.begin() + i)\<close> for a position inside the vector.\<close>

primrec erase :: "'a list \<Rightarrow> nat \<Rightarrow> 'a list" where
  "erase [] i = []"
| "erase (x # xs) i = (case i of 0 \<Rightarrow> xs | Suc j \<Rightarrow> x # erase xs j)"

text \<open>
  Choice 4, after the index has been read: the store and the message written. The store
  is taken to hold fewer than \<open>2 ^ 31\<close> macros, so that \<^verbatim>\<open>static_cast<int>(macros.size())\<close>
  is the size.
\<close>

definition delete_macro :: "Macro list \<Rightarrow> cint \<Rightarrow> Macro list \<times> string" where
  "delete_macro macros index =
     (if sint index < 1 \<or> sint index > int (length macros)
      then (macros, ''Invalid macro number.'' @ [newline])
      else (erase macros (nat (sint index - 1)), ''Macro removed.'' @ [newline]))"

definition main_delete :: "Macro list \<Rightarrow> string \<Rightarrow> (Macro list \<times> string) \<times> string" where
  "main_delete macros cin =
     (case ReadIndex cin of (index, cin') \<Rightarrow> (delete_macro macros index, cin'))"

text \<open>Choice 5: the configuration, the message written and the rest of the input.\<close>

definition main_set_delay :: "AppConfig \<Rightarrow> string \<Rightarrow> (AppConfig \<times> string) \<times> string" where
  "main_set_delay config cin =
     (case ReadIndex cin of (delay, cin') \<Rightarrow>
        if sint delay < 0 then ((config, ''Invalid delay.'' @ [newline]), cin')
        else ((config\<lparr>default_delay_ms := delay\<rparr>, ''Default delay set.'' @ [newline]), cin'))"

text \<open>
  The store over a run of \<^verbatim>\<open>main\<close>: it is loaded at the start (line 316) and then changed
  by the menu choices 3 (\<^verbatim>\<open>CreateMacro\<close>, with the console input at that point), 4 (delete,
  with the index read) and 7 (load again, with the content of the file at that point).
\<close>

datatype store_op = OpCreate string | OpDelete cint | OpLoad "string option"

fun main_store_step :: "Macro list \<Rightarrow> store_op \<Rightarrow> Macro list" where
  "main_store_step macros (OpCreate cin) = fst (CreateMacro macros cin)"
| "main_store_step macros (OpDelete index) = fst (delete_macro macros index)"
| "main_store_step macros (OpLoad file) = LoadMacros file"

definition main_store :: "string option \<Rightarrow> store_op list \<Rightarrow> Macro list" where
  "main_store file ops = foldl main_store_step (LoadMacros file) ops"

section \<open>Specification-side definitions\<close>

text \<open>
  The replay contract in the words of the specification: what one action contributes,
  given the default delay \<open>d\<close>. Move, Click and Key inject and then wait \<open>d\<close>; Delay waits
  its own value and nothing else.
\<close>

definition replay_spec :: "cint \<Rightarrow> Action \<Rightarrow> effect list" where
  "replay_spec d action =
     (case act_type action of
        Move \<Rightarrow> [SendInput [MOUSE_MOVE (act_a action) (act_b action)], Sleep d]
      | Click \<Rightarrow>
          [SendInput (if act_a action = 1 then [MOUSE_RIGHTDOWN, MOUSE_RIGHTUP]
                      else [MOUSE_LEFTDOWN, MOUSE_LEFTUP]), Sleep d]
      | Key \<Rightarrow> [SendInput [KEY_DOWN (ucast (act_a action)), KEY_UP (ucast (act_a action))], Sleep d]
      | Delay \<Rightarrow> [Sleep (act_a action)])"

text \<open>The lines that repeated calls of \<^verbatim>\<open>std::getline\<close> deliver from a stream.\<close>

function read_lines :: "string \<Rightarrow> string list" where
  "read_lines inp =
     (case getline inp of
        None \<Rightarrow> []
      | Some (line, inp') \<Rightarrow> line # read_lines inp')"
  by pat_completeness auto
termination
proof (relation "measure length")
  fix inp :: string and x2 line inp'
  assume "getline inp = Some x2" and "(line, inp') = x2"
  then have ne: "inp \<noteq> []" and inp': "inp' = drop 1 (dropWhile (\<lambda>c. c \<noteq> newline) inp)"
    by (auto simp: getline_def split: if_splits)
  have "length (dropWhile (\<lambda>c. c \<noteq> newline) inp) \<le> length inp"
    by (rule length_dropWhile_le)
  with ne inp' have "length inp' < length inp"
    by (cases inp) auto
  then show "(inp', inp) \<in> measure length"
    by simp
qed simp

text \<open>The configuration after one line, for a line that raises nothing.\<close>

definition LoadConfig_step :: "AppConfig \<Rightarrow> string \<Rightarrow> AppConfig" where
  "LoadConfig_step config line =
     (case LoadConfig_line config line of Inr config' \<Rightarrow> config' | Inl e \<Rightarrow> config)"

declare LoadConfig_loop.simps [simp del] LoadMacros_loop.simps [simp del]
  CreateMacro_loop.simps [simp del] read_lines.simps [simp del] show_nat.simps [simp del]
  LoadMacros_line.simps [simp del]

text \<open>
  A line as the decoder sees it: its first token, the text after the token, the name a
  header line gives, and the action a step line appends.
\<close>

definition line_token :: "string \<Rightarrow> string" where
  "line_token line = fst (first_token line)"

definition line_args :: "string \<Rightarrow> string" where
  "line_args line = snd (first_token line)"

definition header_name :: "string \<Rightarrow> string" where
  "header_name line = read_name (line_args line) []"

definition decode_step :: "string \<Rightarrow> Action option" where
  "decode_step line = step_action (line_token line) (line_args line)"

definition is_step_line :: "string \<Rightarrow> bool" where
  "is_step_line line = (line_token line \<noteq> ''macro'' \<and> line_token line \<noteq> ''end'')"

primrec parsed_steps :: "string list \<Rightarrow> Action list" where
  "parsed_steps [] = []"
| "parsed_steps (l # ls) =
     (case decode_step l of None \<Rightarrow> parsed_steps ls | Some act \<Rightarrow> act # parsed_steps ls)"

text \<open>The macros the decoder yields for a sequence of lines.\<close>

definition decode_lines :: "string list \<Rightarrow> Macro list" where
  "decode_lines ls = LoadMacros_finish (foldl LoadMacros_line ([], Macro_init, False) ls)"

text \<open>Outside a block the current macro is the empty one.\<close>

definition load_inv :: "load_state \<Rightarrow> bool" where
  "load_inv st = (case st of (ms, cur, b) \<Rightarrow> b \<or> cur = Macro_init)"

text \<open>
  A Click action holds a button of the data model: code 0 (left) or code 1 (right). A
  store is sound when every Click action of every macro does.
\<close>

definition click_ok :: "Action \<Rightarrow> bool" where
  "click_ok act = (if act_type act = Click then act_a act = 0 \<or> act_a act = 1 else True)"

definition buttons_ok :: "Macro list \<Rightarrow> bool" where
  "buttons_ok ms = list_all (\<lambda>m. list_all click_ok (actions m)) ms"

text \<open>The line the serializer writes for an action, without the line feed.\<close>

definition action_line :: "Action \<Rightarrow> string" where
  "action_line act = takeWhile (\<lambda>c. c \<noteq> newline) (put_action act)"

text \<open>
  The console input with one more line \<open>done\<close> typed at its end, and the relation between
  an input \<open>c\<close> that has ended and the same session \<open>c'\<close> with that line: either the line
  is still to come, or both inputs are used up (the line was read as the answer to a
  prompt).
\<close>

definition append_done :: "string \<Rightarrow> string" where
  "append_done c =
     (if c = [] \<or> last c = newline then c @ ''done'' else c @ newline # ''done'')"

definition done_follows :: "string \<Rightarrow> string \<Rightarrow> bool" where
  "done_follows c c' = (c' = append_done c \<or> (c = [] \<and> c' = []))"

text \<open>
  A macro of the data model, as the program builds it: the name is one line of text; a
  Click holds code 0 or 1; the second field, which only Move uses, is 0 in every other
  action.
\<close>

definition wf_action :: "Action \<Rightarrow> bool" where
  "wf_action act =
     (case act_type act of
        Move \<Rightarrow> True
      | Click \<Rightarrow> (act_a act = 0 \<or> act_a act = 1) \<and> act_b act = 0
      | Key \<Rightarrow> act_b act = 0
      | Delay \<Rightarrow> act_b act = 0)"

definition wf_macro :: "Macro \<Rightarrow> bool" where
  "wf_macro m = (newline \<notin> set (name m) \<and> list_all wf_action (actions m))"

text \<open>The lines the serializer writes for a macro.\<close>

definition macro_lines :: "Macro \<Rightarrow> string list" where
  "macro_lines m = (''macro '' @ name m) # map action_line (actions m) @ [''end'']"

section \<open>Properties\<close>

subsection \<open>Replay\<close>

lemma RunMacro_action_replay:
  "RunMacro_action config sofar action = sofar @ replay_spec (default_delay_ms config) action"
  by (cases "act_type action")
     (simp_all add: RunMacro_action_def replay_spec_def SendMouseMove_def SendMouseClick_def
       SendKey_def)

lemma foldl_RunMacro_action:
  "foldl (RunMacro_action config) sofar xs
     = sofar @ concat (map (replay_spec (default_delay_ms config)) xs)"
  by (induction xs arbitrary: sofar) (simp_all add: RunMacro_action_replay)

lemma sink_replay_spec: "filter is_sink_call (replay_spec d action) = replay_spec d action"
  by (cases "act_type action") (simp_all add: replay_spec_def)

lemma sink_concat_replay:
  "filter is_sink_call (concat (map (replay_spec d) xs)) = concat (map (replay_spec d) xs)"
  by (induction xs) (simp_all add: sink_replay_spec)

text \<open>
  Claim C2. For every macro and configuration, running the macro produces, in the order
  of its actions, exactly what the replay contract lists: a relative pointer motion and a
  wait of \<open>default_delay_ms\<close> for Move, a button down and up and a wait of
  \<open>default_delay_ms\<close> for Click, a key down and up and a wait of \<open>default_delay_ms\<close> for
  Key, and for Delay a wait of its own value alone. The only other effects are the two
  console lines around the replay.
\<close>

theorem RunMacro_order_and_timing:
  "RunMacro macro config
     = Cout (''Running macro: '' @ name macro @ [newline])
       # concat (map (replay_spec (default_delay_ms config)) (actions macro))
       @ [Cout (''Done.'' @ [newline])]
   \<and> filter is_sink_call (RunMacro macro config)
     = concat (map (replay_spec (default_delay_ms config)) (actions macro))"
  by (simp add: RunMacro_def foldl_RunMacro_action sink_concat_replay)

text \<open>The scenario of the specification, obtained from the theorem.\<close>

theorem RunMacro_scenario:
  "filter is_sink_call
     (RunMacro \<lparr>name = ''m'', actions = [mk_action Move 10 5, mk_action Delay 200 0, mk_action Click 0 0]\<rparr>
        \<lparr>default_delay_ms = 50\<rparr>)
   = [SendInput [MOUSE_MOVE 10 5], Sleep 50, Sleep 200,
      SendInput [MOUSE_LEFTDOWN, MOUSE_LEFTUP], Sleep 50]"
  using RunMacro_order_and_timing
    [of "\<lparr>name = ''m'', actions = [mk_action Move 10 5, mk_action Delay 200 0, mk_action Click 0 0]\<rparr>"
        "\<lparr>default_delay_ms = 50\<rparr>"]
  by (simp add: replay_spec_def mk_action_def)

subsection \<open>Delete\<close>

lemma erase_take_drop: "erase xs i = take i xs @ drop (Suc i) xs"
  by (induction xs arbitrary: i) (simp_all split: nat.splits)

text \<open>
  Claim C8. For every store and every 1-based position \<open>p\<close>: when \<open>p\<close> is between 1 and
  the size of the store, delete removes the macro at position \<open>p\<close> and keeps the macros
  before and after it in their order; otherwise the store is unchanged and the operation
  reports an invalid number.
\<close>

theorem delete_macro_semantics:
  "(1 \<le> sint p \<and> sint p \<le> int (length ms) \<longrightarrow>
      delete_macro ms p
        = (take (nat (sint p) - 1) ms @ drop (nat (sint p)) ms, ''Macro removed.'' @ [newline])
      \<and> ms = take (nat (sint p) - 1) ms @ ms ! (nat (sint p) - 1) # drop (nat (sint p)) ms)
   \<and> (sint p < 1 \<or> int (length ms) < sint p \<longrightarrow>
      delete_macro ms p = (ms, ''Invalid macro number.'' @ [newline]))"
proof (intro conjI impI)
  assume r: "1 \<le> sint p \<and> sint p \<le> int (length ms)"
  then have n: "nat (sint p - 1) = nat (sint p) - 1" "Suc (nat (sint p) - 1) = nat (sint p)"
    "nat (sint p) - 1 < length ms"
    by auto
  from r show "delete_macro ms p
        = (take (nat (sint p) - 1) ms @ drop (nat (sint p)) ms, ''Macro removed.'' @ [newline])"
    by (simp add: delete_macro_def erase_take_drop n)
  from n(3) show "ms = take (nat (sint p) - 1) ms @ ms ! (nat (sint p) - 1) # drop (nat (sint p)) ms"
    using id_take_nth_drop [of "nat (sint p) - 1" ms] n(2) by simp
next
  assume "sint p < 1 \<or> int (length ms) < sint p"
  then show "delete_macro ms p = (ms, ''Invalid macro number.'' @ [newline])"
    by (auto simp: delete_macro_def)
qed

text \<open>Deleting position 1 and position 4 of a store named A, B, C.\<close>

theorem delete_macro_ABC:
  "delete_macro [\<lparr>name = ''A'', actions = []\<rparr>, \<lparr>name = ''B'', actions = []\<rparr>, \<lparr>name = ''C'', actions = []\<rparr>] 1
     = ([\<lparr>name = ''B'', actions = []\<rparr>, \<lparr>name = ''C'', actions = []\<rparr>], ''Macro removed.'' @ [newline])
   \<and> delete_macro [\<lparr>name = ''A'', actions = []\<rparr>, \<lparr>name = ''B'', actions = []\<rparr>, \<lparr>name = ''C'', actions = []\<rparr>] 4
     = ([\<lparr>name = ''A'', actions = []\<rparr>, \<lparr>name = ''B'', actions = []\<rparr>, \<lparr>name = ''C'', actions = []\<rparr>],
        ''Invalid macro number.'' @ [newline])"
  using delete_macro_semantics [of 1 "[\<lparr>name = ''A'', actions = []\<rparr>, \<lparr>name = ''B'', actions = []\<rparr>, \<lparr>name = ''C'', actions = []\<rparr>]"]
    delete_macro_semantics [of 4 "[\<lparr>name = ''A'', actions = []\<rparr>, \<lparr>name = ''B'', actions = []\<rparr>, \<lparr>name = ''C'', actions = []\<rparr>]"]
  by simp

subsection \<open>Configuration file\<close>

lemma find_char_less: "find_char s c = Some pos \<Longrightarrow> pos < length s"
proof -
  assume a: "find_char s c = Some pos"
  then have c: "c \<in> set s" and pos: "pos = length (takeWhile (\<lambda>x. x \<noteq> c) s)"
    by (auto simp: find_char_def split: if_splits)
  have "length (takeWhile (\<lambda>x. x \<noteq> c) s) \<le> length s"
    by (rule length_takeWhile_le)
  moreover have "length (takeWhile (\<lambda>x. x \<noteq> c) s) \<noteq> length s"
  proof
    assume "length (takeWhile (\<lambda>x. x \<noteq> c) s) = length s"
    then have "takeWhile (\<lambda>x. x \<noteq> c) s = s"
      by (metis takeWhile_eq_take take_all order_refl)
    then have "\<forall>x \<in> set s. x \<noteq> c"
      by (simp add: takeWhile_eq_all_conv)
    with c show False by blast
  qed
  ultimately show ?thesis using pos by simp
qed

lemma LoadConfig_line_Inr: "LoadConfig_line config line = Inr (LoadConfig_step config line)"
proof (cases "find_char line CHR ''=''")
  case None
  then show ?thesis by (simp add: LoadConfig_line_def LoadConfig_step_def)
next
  case (Some pos)
  then have "pos < length line" by (rule find_char_less)
  with Some show ?thesis
    by (simp add: LoadConfig_line_def LoadConfig_step_def substr2_def substr1_def
        split: sum.splits)
qed

lemma LoadConfig_loop_lines:
  "LoadConfig_loop inp config = Inr (foldl LoadConfig_step config (read_lines inp))"
proof (induction inp config rule: LoadConfig_loop.induct)
  case (1 inp config)
  show ?case
  proof (cases "getline inp")
    case None
    then show ?thesis
      by (simp add: LoadConfig_loop.simps [of inp] read_lines.simps [of inp])
  next
    case (Some x)
    obtain line inp' where x: "x = (line, inp')" by (cases x)
    have "LoadConfig_loop inp' (LoadConfig_step config line)
            = Inr (foldl LoadConfig_step (LoadConfig_step config line) (read_lines inp'))"
      using "1.IH" [OF Some x [symmetric] LoadConfig_line_Inr] .
    with Some x show ?thesis
      by (simp add: LoadConfig_loop.simps [of inp] read_lines.simps [of inp]
          LoadConfig_line_Inr)
  qed
qed

lemma LoadConfig_step_fallback:
  assumes "stoi v = Inl e"
  shows "LoadConfig_step config (''default_delay_ms='' @ v) = \<lparr>default_delay_ms = 50\<rparr>"
proof -
  have "find_char (''default_delay_ms='' @ v) CHR ''='' = Some 16"
    by (simp add: find_char_def)
  with assms show ?thesis
    by (simp add: LoadConfig_step_def LoadConfig_line_def substr2_def substr1_def)
qed

text \<open>
  Claim C5. Loading the configuration succeeds for every file content and for an absent
  file: no exception leaves \<open>LoadConfig\<close>. An absent file gives the default 50. A line
  \<open>default_delay_ms=v\<close> whose value \<open>v\<close> fails integer parsing (no number, or a number
  outside the range of int) sets the delay back to 50; when it is the last line read, 50
  is the result of the load.
\<close>

theorem LoadConfig_total_with_fallback:
  "(\<exists>config. LoadConfig file = Inr config)
   \<and> LoadConfig None = Inr \<lparr>default_delay_ms = 50\<rparr>
   \<and> (\<forall>config v e. stoi v = Inl e \<longrightarrow>
        LoadConfig_line config (''default_delay_ms='' @ v) = Inr \<lparr>default_delay_ms = 50\<rparr>)
   \<and> (\<forall>inp ls v e. read_lines inp = ls @ [''default_delay_ms='' @ v] \<and> stoi v = Inl e \<longrightarrow>
        LoadConfig (Some inp) = Inr \<lparr>default_delay_ms = 50\<rparr>)"
proof (intro conjI allI impI)
  show "\<exists>config. LoadConfig file = Inr config"
    by (cases "file") (simp_all add: LoadConfig_def LoadConfig_loop_lines)
  show "LoadConfig None = Inr \<lparr>default_delay_ms = 50\<rparr>"
    by (simp add: LoadConfig_def AppConfig_init_def)
next
  fix config :: AppConfig and v e
  assume "stoi v = Inl e"
  then show "LoadConfig_line config (''default_delay_ms='' @ v) = Inr \<lparr>default_delay_ms = 50\<rparr>"
    using LoadConfig_step_fallback [of v e config] by (simp add: LoadConfig_line_Inr)
next
  fix inp ls v e
  assume "read_lines inp = ls @ [''default_delay_ms='' @ v] \<and> stoi v = Inl e"
  then show "LoadConfig (Some inp) = Inr \<lparr>default_delay_ms = 50\<rparr>"
    using LoadConfig_step_fallback [of v e] by (simp add: LoadConfig_def LoadConfig_loop_lines)
qed

lemma stoi_abc: "stoi ''abc'' = Inl invalid_argument"
  by (simp add: stoi_def scan_integer_def scan_sign_def isspace_def isdigit_def)

lemma read_lines_config_example:
  "read_lines (''x=1'' @ [newline] @ ''default_delay_ms=abc'' @ [newline])
     = [''x=1''] @ [''default_delay_ms='' @ ''abc'']"
  by (simp add: read_lines.simps getline_def newline_def)

text \<open>A file whose last line carries the value \<open>abc\<close>.\<close>

theorem LoadConfig_fallback_witness:
  "stoi ''abc'' = Inl invalid_argument
   \<and> LoadConfig (Some (''x=1'' @ [newline] @ ''default_delay_ms=abc'' @ [newline]))
       = Inr \<lparr>default_delay_ms = 50\<rparr>
   \<and> LoadConfig_line \<lparr>default_delay_ms = 7\<rparr> (''default_delay_ms='' @ ''abc'')
       = Inr \<lparr>default_delay_ms = 50\<rparr>"
proof -
  note t = LoadConfig_total_with_fallback [of None]
  from t have a: "\<forall>config v e. stoi v = Inl e \<longrightarrow>
        LoadConfig_line config (''default_delay_ms='' @ v) = Inr \<lparr>default_delay_ms = 50\<rparr>"
    by (elim conjE)
  from t have b: "\<forall>inp ls v e. read_lines inp = ls @ [''default_delay_ms='' @ v] \<and> stoi v = Inl e \<longrightarrow>
        LoadConfig (Some inp) = Inr \<lparr>default_delay_ms = 50\<rparr>"
    by (elim conjE)
  from a stoi_abc
  have "LoadConfig_line \<lparr>default_delay_ms = 7\<rparr> (''default_delay_ms='' @ ''abc'')
       = Inr \<lparr>default_delay_ms = 50\<rparr>"
    by blast
  moreover from b stoi_abc read_lines_config_example
  have "LoadConfig (Some (''x=1'' @ [newline] @ ''default_delay_ms=abc'' @ [newline]))
       = Inr \<lparr>default_delay_ms = 50\<rparr>"
    by blast
  ultimately show ?thesis using stoi_abc by blast
qed

text \<open>
  The menu handler for the default delay keeps the delay non-negative: it rejects a
  negative entry.
\<close>

lemma main_set_delay_nonneg:
  "0 \<le> sint (default_delay_ms config)
   \<Longrightarrow> 0 \<le> sint (default_delay_ms (fst (fst (main_set_delay config cin))))"
  by (simp add: main_set_delay_def split: prod.splits)

text \<open>
  Claim C4, the load path: \<open>LoadConfig\<close> stores whatever integer the file holds. A file
  with the line \<open>default_delay_ms=-5\<close> loads without error into a configuration whose
  delay is \<open>-5\<close>.
\<close>

theorem LoadConfig_negative_delay:
  "LoadConfig (Some (''default_delay_ms=-5'' @ [newline])) = Inr \<lparr>default_delay_ms = - 5\<rparr>
   \<and> sint (default_delay_ms \<lparr>default_delay_ms = - 5\<rparr>) = - 5"
  by (simp add: LoadConfig_def LoadConfig_loop_lines read_lines.simps getline_def newline_def
      AppConfig_init_def LoadConfig_step_def LoadConfig_line_def find_char_def substr2_def
      substr1_def stoi_def scan_integer_def scan_sign_def isspace_def isdigit_def
      digits_value_def digit_value_def in_int_range_def)

subsection \<open>Macro file: the decoder line by line\<close>

lemma LoadMacros_loop_lines:
  "LoadMacros_loop inp st = foldl LoadMacros_line st (read_lines inp)"
proof (induction inp st rule: LoadMacros_loop.induct)
  case (1 inp st)
  show ?case
  proof (cases "getline inp")
    case None
    then show ?thesis
      by (simp add: LoadMacros_loop.simps [of inp] read_lines.simps [of inp])
  next
    case (Some x)
    obtain line inp' where x: "x = (line, inp')" by (cases x)
    from "1.IH" [OF Some x [symmetric]] Some x show ?thesis
      by (simp add: LoadMacros_loop.simps [of inp] read_lines.simps [of inp])
  qed
qed

lemma LoadMacros_lines: "LoadMacros (Some inp) = decode_lines (read_lines inp)"
  by (simp add: LoadMacros_def decode_lines_def LoadMacros_loop_lines)

lemma first_token_split: "first_token line = (line_token line, line_args line)"
  by (simp add: line_token_def line_args_def)

lemma line_token_Nil [simp]: "line_token [] = []"
  by (simp add: line_token_def first_token_def extract_string_def)

lemma parsed_steps_append: "parsed_steps (xs @ ys) = parsed_steps xs @ parsed_steps ys"
  by (induction xs) (simp_all split: option.splits)

text \<open>A step line inside a block appends its action, if it has one, and nothing else.\<close>

lemma LoadMacros_line_step:
  assumes "is_step_line l"
  shows "LoadMacros_line (ms, cur, True) l
           = (ms, cur\<lparr>actions := actions cur @ parsed_steps [l]\<rparr>, True)"
proof (cases "l = []")
  case True
  then show ?thesis
    by (simp add: LoadMacros_line.simps decode_step_def step_action_def)
next
  case False
  with assms show ?thesis
    by (simp add: LoadMacros_line.simps is_step_line_def first_token_split decode_step_def
        split: option.splits)
qed

lemma LoadMacros_line_outside:
  assumes "line_token l \<noteq> ''macro''"
  shows "LoadMacros_line (ms, cur, False) l = (ms, cur, False)"
  using assms by (simp add: LoadMacros_line.simps first_token_split)

lemma foldl_steps:
  assumes "\<forall>l \<in> set steps. is_step_line l"
  shows "foldl LoadMacros_line (ms, cur, True) steps
           = (ms, cur\<lparr>actions := actions cur @ parsed_steps steps\<rparr>, True)"
  using assms
proof (induction steps arbitrary: cur)
  case Nil
  show ?case by simp
next
  case (Cons l steps)
  then have l: "is_step_line l" and rest: "\<forall>l \<in> set steps. is_step_line l"
    by simp_all
  show ?case
    by (simp add: LoadMacros_line_step [OF l] Cons.IH [OF rest] split: option.splits)
qed

lemma load_inv_line: "load_inv st \<Longrightarrow> load_inv (LoadMacros_line st l)"
  by (cases st)
     (auto simp: LoadMacros_line.simps load_inv_def first_token_split Let_def
       split: option.splits)

lemma load_inv_foldl: "load_inv st \<Longrightarrow> load_inv (foldl LoadMacros_line st ls)"
  by (induction ls arbitrary: st) (simp_all add: load_inv_line)

lemma load_inv_init: "load_inv ([], Macro_init, False)"
  by (simp add: load_inv_def)

text \<open>A header line closes what is open and starts a block with its name.\<close>

lemma LoadMacros_line_header:
  assumes "line_token h = ''macro''" and "load_inv st"
  shows "LoadMacros_line st h
           = (LoadMacros_finish st, \<lparr>name = header_name h, actions = []\<rparr>, True)"
proof -
  obtain ms cur b where st: "st = (ms, cur, b)" by (cases st)
  from assms(1) have ne: "h \<noteq> []" by auto
  show ?thesis
  proof (cases b)
    case True
    with st ne assms(1) show ?thesis
      by (simp add: LoadMacros_line.simps first_token_split LoadMacros_finish_def
          header_name_def Macro_init_def)
  next
    case False
    with assms(2) st have "cur = Macro_init" by (simp add: load_inv_def)
    with False st ne assms(1) show ?thesis
      by (simp add: LoadMacros_line.simps first_token_split LoadMacros_finish_def
          header_name_def Macro_init_def)
  qed
qed

text \<open>The macros already emitted are a prefix that later lines only extend.\<close>

lemma LoadMacros_line_prefix:
  "LoadMacros_line (ms0 @ ms, cur, b) l
     = (case LoadMacros_line (ms, cur, b) l of (ms', cur', b') \<Rightarrow> (ms0 @ ms', cur', b'))"
  by (simp add: LoadMacros_line.simps first_token_split Let_def split: option.splits)

lemma foldl_prefix:
  "foldl LoadMacros_line (ms0 @ ms, cur, b) ls
     = (case foldl LoadMacros_line (ms, cur, b) ls of (ms', cur', b') \<Rightarrow> (ms0 @ ms', cur', b'))"
proof (induction ls arbitrary: ms cur b)
  case Nil
  show ?case by simp
next
  case (Cons l ls)
  obtain ms1 cur1 b1 where s: "LoadMacros_line (ms, cur, b) l = (ms1, cur1, b1)"
    by (cases "LoadMacros_line (ms, cur, b) l")
  then have "LoadMacros_line (ms0 @ ms, cur, b) l = (ms0 @ ms1, cur1, b1)"
    by (simp add: LoadMacros_line_prefix [of ms0 ms cur b l])
  with s Cons.IH [of ms1 cur1 b1] show ?case
    by simp
qed

lemma finish_prefix:
  "LoadMacros_finish (foldl LoadMacros_line (ms0, cur, b) ls)
     = ms0 @ LoadMacros_finish (foldl LoadMacros_line ([], cur, b) ls)"
  using foldl_prefix [of ms0 "[]" cur b ls]
  by (simp add: LoadMacros_finish_def split: prod.splits)

text \<open>Decoding splits at a header line.\<close>

lemma decode_lines_header:
  assumes "line_token h = ''macro''"
  shows "decode_lines (pre @ h # rest) = decode_lines pre @ decode_lines (h # rest)"
proof -
  let ?st = "foldl LoadMacros_line ([], Macro_init, False) pre"
  have inv: "load_inv ?st" by (rule load_inv_foldl [OF load_inv_init])
  have "decode_lines (pre @ h # rest)
          = LoadMacros_finish (foldl LoadMacros_line (LoadMacros_line ?st h) rest)"
    by (simp add: decode_lines_def)
  also have "\<dots> = LoadMacros_finish (foldl LoadMacros_line
                      (LoadMacros_finish ?st, \<lparr>name = header_name h, actions = []\<rparr>, True) rest)"
    by (simp add: LoadMacros_line_header [OF assms inv])
  also have "\<dots> = LoadMacros_finish ?st @ LoadMacros_finish (foldl LoadMacros_line
                      ([], \<lparr>name = header_name h, actions = []\<rparr>, True) rest)"
    by (rule finish_prefix)
  also have "\<dots> = decode_lines pre @ decode_lines (h # rest)"
    using LoadMacros_line_header [OF assms load_inv_init]
    by (simp add: decode_lines_def LoadMacros_finish_def)
  finally show ?thesis .
qed

lemma decode_lines_block:
  assumes "line_token h = ''macro''" and "\<forall>l \<in> set steps. is_step_line l"
  shows "foldl LoadMacros_line ([], Macro_init, False) (h # steps)
           = ([], \<lparr>name = header_name h, actions = parsed_steps steps\<rparr>, True)"
  using LoadMacros_line_header [OF assms(1) load_inv_init] foldl_steps [OF assms(2)]
  by (simp add: LoadMacros_finish_def)

subsection \<open>Macro file: open blocks\<close>

text \<open>The definitions to unfold when the decoder runs on a given text.\<close>

lemmas decoder_eval =
  read_lines.simps getline_def newline_def line_token_def line_args_def first_token_def
  extract_string_def isspace_def is_step_line_def decode_lines_def LoadMacros_line.simps
  LoadMacros_finish_def Macro_init_def header_name_def read_name_def decode_step_def
  step_action_def extract_int_def scan_integer_def scan_sign_def isdigit_def
  digits_value_def digit_value_def in_int_range_def mk_action_def

text \<open>
  Claim C6. Whenever the last header line \<open>macro <name>\<close> of a macro text is followed,
  up to the end of the input, by lines that are neither \<open>end\<close> nor a further header, the
  decoder still emits that macro, after the macros of the text before it: its name is the
  name of the header and its actions are the steps parsed from all those lines, in order.
\<close>

theorem EOF_closes_block:
  assumes "read_lines inp = pre @ h # steps"
    and "line_token h = ''macro''"
    and "\<forall>l \<in> set steps. is_step_line l"
  shows "LoadMacros (Some inp)
           = decode_lines pre @ [\<lparr>name = header_name h, actions = parsed_steps steps\<rparr>]"
proof -
  have "decode_lines (h # steps) = [\<lparr>name = header_name h, actions = parsed_steps steps\<rparr>]"
    unfolding decode_lines_def decode_lines_block [OF assms(2,3)]
    by (simp add: LoadMacros_finish_def)
  with assms(1) show ?thesis
    by (simp add: LoadMacros_lines decode_lines_header [OF assms(2)])
qed

text \<open>A text whose second block runs to the end of the input.\<close>

theorem EOF_closes_block_witness:
  "LoadMacros (Some (''macro a'' @ [newline] @ ''key 1'' @ [newline] @ ''macro Greet''
      @ [newline] @ ''key 72'' @ [newline] @ ''bogus'' @ [newline] @ ''key 73''))
   = [\<lparr>name = ''a'', actions = [mk_action Key 1 0]\<rparr>,
      \<lparr>name = ''Greet'', actions = [mk_action Key 72 0, mk_action Key 73 0]\<rparr>]"
proof -
  let ?inp = "''macro a'' @ [newline] @ ''key 1'' @ [newline] @ ''macro Greet''
      @ [newline] @ ''key 72'' @ [newline] @ ''bogus'' @ [newline] @ ''key 73''"
  have 1: "read_lines ?inp = [''macro a'', ''key 1''] @ ''macro Greet'' # [''key 72'', ''bogus'', ''key 73'']"
    by (simp add: read_lines.simps getline_def newline_def)
  have 2: "line_token ''macro Greet'' = ''macro''"
    by (simp add: decoder_eval)
  have 3: "\<forall>l \<in> set [''key 72'', ''bogus'', ''key 73'']. is_step_line l"
    by (simp add: decoder_eval)
  have 4: "decode_lines [''macro a'', ''key 1''] = [\<lparr>name = ''a'', actions = [mk_action Key 1 0]\<rparr>]"
    by (simp add: decoder_eval)
  have 5: "header_name ''macro Greet'' = ''Greet''"
    by (simp add: decoder_eval)
  have 6: "parsed_steps [''key 72'', ''bogus'', ''key 73''] = [mk_action Key 72 0, mk_action Key 73 0]"
    by (simp add: decoder_eval)
  show ?thesis
    using EOF_closes_block [OF 1 2 3] by (simp only: 4 5 6) simp
qed

text \<open>
  Claim C7. Whenever a header line \<open>macro <name>\<close> appears while the block of an earlier
  header is still open (only step lines in between, no \<open>end\<close>), the decoder emits the
  earlier block as a complete macro with the steps parsed so far, and what follows is
  decoded as a text starting with the new header.
\<close>

theorem header_closes_open_block:
  assumes "read_lines inp = pre @ h1 # steps @ h2 # post"
    and "line_token h1 = ''macro''"
    and "\<forall>l \<in> set steps. is_step_line l"
    and "line_token h2 = ''macro''"
  shows "LoadMacros (Some inp)
           = decode_lines pre
             @ \<lparr>name = header_name h1, actions = parsed_steps steps\<rparr> # decode_lines (h2 # post)"
proof -
  have b: "decode_lines (h1 # steps) = [\<lparr>name = header_name h1, actions = parsed_steps steps\<rparr>]"
    unfolding decode_lines_def decode_lines_block [OF assms(2,3)]
    by (simp add: LoadMacros_finish_def)
  have "decode_lines (pre @ h1 # steps @ h2 # post)
          = decode_lines pre @ decode_lines (h1 # steps @ h2 # post)"
    by (rule decode_lines_header [OF assms(2)])
  also have "decode_lines (h1 # steps @ h2 # post)
          = decode_lines (h1 # steps) @ decode_lines (h2 # post)"
    using decode_lines_header [OF assms(4), of "h1 # steps" post] by simp
  finally show ?thesis
    using assms(1) b by (simp add: LoadMacros_lines)
qed

text \<open>Two blocks, the first without \<open>end\<close>.\<close>

theorem header_closes_open_block_witness:
  "LoadMacros (Some (''macro a'' @ [newline] @ ''key 1'' @ [newline] @ ''macro b''
      @ [newline] @ ''click right'' @ [newline] @ ''end'' @ [newline]))
   = [\<lparr>name = ''a'', actions = [mk_action Key 1 0]\<rparr>,
      \<lparr>name = ''b'', actions = [mk_action Click 1 0]\<rparr>]"
proof -
  let ?inp = "''macro a'' @ [newline] @ ''key 1'' @ [newline] @ ''macro b''
      @ [newline] @ ''click right'' @ [newline] @ ''end'' @ [newline]"
  have 1: "read_lines ?inp = [] @ ''macro a'' # [''key 1''] @ ''macro b'' # [''click right'', ''end'']"
    by (simp add: read_lines.simps getline_def newline_def)
  have 2: "line_token ''macro a'' = ''macro''" "line_token ''macro b'' = ''macro''"
    by (simp_all add: decoder_eval)
  have 3: "\<forall>l \<in> set [''key 1'']. is_step_line l"
    by (simp add: decoder_eval)
  have 4: "decode_lines [] = []"
    by (simp add: decoder_eval)
  have 5: "header_name ''macro a'' = ''a''"
    by (simp add: decoder_eval)
  have 6: "parsed_steps [''key 1''] = [mk_action Key 1 0]"
    by (simp add: decoder_eval)
  have 7: "decode_lines (''macro b'' # [''click right'', ''end'']) = [\<lparr>name = ''b'', actions = [mk_action Click 1 0]\<rparr>]"
    by (simp add: decoder_eval)
  show ?thesis
    using header_closes_open_block [OF 1 2(1) 3 2(2)] by (simp only: 4 5 6 7) simp
qed

subsection \<open>Macro file: dropped lines\<close>

lemma LoadMacros_line_no_action:
  assumes "is_step_line l" and "decode_step l = None"
  shows "LoadMacros_line st l = st"
proof -
  obtain ms cur b where st: "st = (ms, cur, b)" by (cases st)
  show ?thesis
  proof (cases b)
    case True
    with st assms show ?thesis by (simp add: LoadMacros_line_step)
  next
    case False
    with st assms show ?thesis by (simp add: LoadMacros_line_outside is_step_line_def)
  qed
qed

text \<open>
  Claim C3, as amended. The decoder is a total function: every failed extraction is a
  branch that leaves the state as it is, and the loop ends with the input. A \<open>move\<close> line
  is dropped when no decimal integer (white space, optional sign, digits) can be read at
  the position of \<open>dx\<close> or, after \<open>dx\<close>, at the position of \<open>dy\<close>; the text then decodes
  as it does without that line, so every other line is kept, in order.
\<close>

theorem unparsable_move_dropped:
  assumes "read_lines inp = pre @ l # post"
    and "line_token l = ''move''"
    and "scan_integer (line_args l) = None
         \<or> (\<exists>v r. scan_integer (line_args l) = Some (v, r) \<and> scan_integer r = None)"
  shows "LoadMacros (Some inp) = decode_lines (pre @ post)"
proof -
  from assms(2) have s: "is_step_line l" by (simp add: is_step_line_def)
  from assms(2,3) have "decode_step l = None"
    by (auto simp: decode_step_def step_action_def extract_int_def split: option.splits)
  with s have "LoadMacros_line st l = st" for st
    by (rule LoadMacros_line_no_action)
  with assms(1) show ?thesis
    by (simp add: LoadMacros_lines decode_lines_def)
qed

text \<open>
  Claim C3, as stated, fails: the line \<open>move 10 5px\<close> holds the token \<open>5px\<close>, which is not
  a number, and is not dropped. The extraction of \<open>dy\<close> reads the prefix \<open>5\<close> and leaves
  \<open>px\<close> unread.
\<close>

theorem move_numeric_prefix_kept:
  "LoadMacros (Some (''macro m'' @ [newline] @ ''move 10 5px'' @ [newline] @ ''end'' @ [newline]))
     = [\<lparr>name = ''m'', actions = [mk_action Move 10 5]\<rparr>]
   \<and> LoadMacros (Some (''macro m'' @ [newline] @ ''move 10 5px'' @ [newline] @ ''end'' @ [newline]))
     \<noteq> LoadMacros (Some (''macro m'' @ [newline] @ ''end'' @ [newline]))"
  by (simp add: LoadMacros_lines decoder_eval)

text \<open>A block in which the second argument of a \<open>move\<close> line is \<open>px\<close>.\<close>

theorem unparsable_move_dropped_witness:
  "LoadMacros (Some (''macro m'' @ [newline] @ ''key 1'' @ [newline] @ ''move 10 px''
      @ [newline] @ ''delay 7'' @ [newline] @ ''end'' @ [newline]))
   = [\<lparr>name = ''m'', actions = [mk_action Key 1 0, mk_action Delay 7 0]\<rparr>]"
proof -
  let ?inp = "''macro m'' @ [newline] @ ''key 1'' @ [newline] @ ''move 10 px''
      @ [newline] @ ''delay 7'' @ [newline] @ ''end'' @ [newline]"
  have 1: "read_lines ?inp = [''macro m'', ''key 1''] @ ''move 10 px'' # [''delay 7'', ''end'']"
    by (simp add: read_lines.simps getline_def newline_def)
  have 2: "line_token ''move 10 px'' = ''move''"
    by (simp add: decoder_eval)
  have 3: "scan_integer (line_args ''move 10 px'') = Some (10, '' px'') \<and> scan_integer '' px'' = None"
    by (simp add: decoder_eval)
  then have 3: "scan_integer (line_args ''move 10 px'') = None
         \<or> (\<exists>v r. scan_integer (line_args ''move 10 px'') = Some (v, r) \<and> scan_integer r = None)"
    by blast
  have 4: "decode_lines ([''macro m'', ''key 1''] @ [''delay 7'', ''end''])
             = [\<lparr>name = ''m'', actions = [mk_action Key 1 0, mk_action Delay 7 0]\<rparr>]"
    by (simp add: decoder_eval)
  show ?thesis
    using unparsable_move_dropped [OF 1 2 3] by (simp only: 4)
qed

subsection \<open>Button codes\<close>

lemma step_action_click_ok: "step_action t iss = Some act \<Longrightarrow> click_ok act"
  by (auto simp: step_action_def click_ok_def mk_action_def split: if_splits option.splits)

lemma LoadMacros_line_buttons:
  assumes "buttons_ok ms" and "list_all click_ok (actions cur)"
    and "LoadMacros_line (ms, cur, b) l = (ms', cur', b')"
  shows "buttons_ok ms' \<and> list_all click_ok (actions cur')"
  using assms
  by (auto simp: LoadMacros_line.simps first_token_split buttons_ok_def Macro_init_def Let_def
      split: if_splits option.splits dest: step_action_click_ok)

lemma foldl_buttons:
  assumes "buttons_ok ms" and "list_all click_ok (actions cur)"
    and "foldl LoadMacros_line (ms, cur, b) ls = (ms', cur', b')"
  shows "buttons_ok ms' \<and> list_all click_ok (actions cur')"
  using assms
proof (induction ls arbitrary: ms cur b)
  case Nil
  then show ?case by simp
next
  case (Cons l ls)
  obtain ms1 cur1 b1 where s: "LoadMacros_line (ms, cur, b) l = (ms1, cur1, b1)"
    by (cases "LoadMacros_line (ms, cur, b) l")
  from LoadMacros_line_buttons [OF Cons.prems(1,2) s]
  have "buttons_ok ms1" and "list_all click_ok (actions cur1)" by simp_all
  moreover from Cons.prems(3) s have "foldl LoadMacros_line (ms1, cur1, b1) ls = (ms', cur', b')"
    by simp
  ultimately show ?case by (rule Cons.IH)
qed

lemma LoadMacros_buttons: "buttons_ok (LoadMacros file)"
proof (cases "file")
  case None
  then show ?thesis by (simp add: LoadMacros_def buttons_ok_def)
next
  case (Some inp)
  obtain ms cur b where s: "foldl LoadMacros_line ([], Macro_init, False) (read_lines inp) = (ms, cur, b)"
    by (cases "foldl LoadMacros_line ([], Macro_init, False) (read_lines inp)")
  have "buttons_ok ms \<and> list_all click_ok (actions cur)"
    by (rule foldl_buttons [OF _ _ s]) (simp_all add: buttons_ok_def Macro_init_def)
  with Some s show ?thesis
    by (simp add: LoadMacros_def LoadMacros_loop_lines LoadMacros_finish_def buttons_ok_def)
qed

text \<open>What every turn of the creation loop preserves holds of the macro it returns.\<close>

lemma CreateMacro_loop_invariant:
  assumes "P macro" and step: "\<And>m step s. P m \<Longrightarrow> P (fst (CreateMacro_step m step s))"
  shows "P (fst (CreateMacro_loop macro cin))"
  using assms(1)
proof (induction macro cin rule: CreateMacro_loop.induct)
  case (1 macro cin)
  show ?case
  proof (cases "getline cin")
    case None
    with "1.prems" show ?thesis
      by (simp add: CreateMacro_loop.simps [of macro cin])
  next
    case (Some x)
    obtain stp cin1 where x: "x = (stp, cin1)" by (cases x)
    show ?thesis
    proof (cases "stp = ''done''")
      case True
      with Some x "1.prems" show ?thesis
        by (simp add: CreateMacro_loop.simps [of macro cin])
    next
      case False
      obtain macro' cin' where s: "CreateMacro_step macro stp cin1 = (macro', cin')"
        by (cases "CreateMacro_step macro stp cin1")
      from step [OF "1.prems", of stp cin1] s have "P macro'" by simp
      then have "P (fst (CreateMacro_loop macro' cin'))"
        by (rule "1.IH" [OF Some x [symmetric] False s [symmetric]])
      with Some x False s show ?thesis
        by (simp add: CreateMacro_loop.simps [of macro cin])
    qed
  qed
qed

lemma CreateMacro_step_buttons:
  "list_all click_ok (actions m) \<Longrightarrow> list_all click_ok (actions (fst (CreateMacro_step m step s)))"
  by (simp add: CreateMacro_step_def case_prod_beta push_action_def mk_action_def click_ok_def)

lemma CreateMacro_loop_buttons:
  "list_all click_ok (actions macro)
   \<Longrightarrow> list_all click_ok (actions (fst (CreateMacro_loop macro cin)))"
  by (rule CreateMacro_loop_invariant [where P = "\<lambda>m. list_all click_ok (actions m)"])
     (simp_all add: CreateMacro_step_buttons)

lemma CreateMacro_buttons:
  "buttons_ok ms \<Longrightarrow> buttons_ok (fst (CreateMacro ms cin))"
  using CreateMacro_loop_buttons [of "\<lparr>name = fst (ReadLine cin), actions = []\<rparr>" "snd (ReadLine cin)"]
  by (simp add: CreateMacro_def buttons_ok_def case_prod_beta)

lemma click_line_decodes:
  assumes "act_type act = Click" and "act_a act = 0 \<or> act_a act = 1"
  shows "(action_line act = ''click left'' \<or> action_line act = ''click right'')
         \<and> decode_step (action_line act) = Some (mk_action Click (act_a act) 0)"
  using assms
  by (auto simp: action_line_def put_action_def newline_def decode_step_def line_token_def
      line_args_def first_token_def extract_string_def isspace_def step_action_def)

subsection \<open>Interactive creation at the end of the input\<close>

lemma getline_Nil [simp]: "getline [] = None"
  by (simp add: getline_def)

lemma getline_done: "getline ''done'' = Some (''done'', [])"
  by (simp add: getline_def newline_def)

lemma stoi_done: "stoi ''done'' = Inl invalid_argument"
  by (simp add: stoi_def scan_integer_def scan_sign_def isspace_def isdigit_def)

lemma getline_append:
  assumes "newline \<in> set c"
  shows "getline (c @ s)
           = Some (takeWhile (\<lambda>x. x \<noteq> newline) c, drop 1 (dropWhile (\<lambda>x. x \<noteq> newline) c) @ s)"
proof -
  let ?P = "\<lambda>x. x \<noteq> newline"
  have tw: "takeWhile ?P (c @ s) = takeWhile ?P c"
    using takeWhile_append1 [OF assms, of ?P s] by simp
  have dw: "dropWhile ?P (c @ s) = dropWhile ?P c @ s"
    using dropWhile_append1 [OF assms, of ?P s] by simp
  from assms have "dropWhile ?P c \<noteq> []" by auto
  then have dr: "drop 1 (dropWhile ?P c @ s) = drop 1 (dropWhile ?P c) @ s"
    by (cases "dropWhile ?P c") simp_all
  from assms have "c @ s \<noteq> []" by auto
  then have "getline (c @ s) = Some (takeWhile ?P (c @ s), drop 1 (dropWhile ?P (c @ s)))"
    by (simp only: getline_def if_False)
  also have "\<dots> = Some (takeWhile ?P c, drop 1 (dropWhile ?P c) @ s)"
    by (simp only: tw dw dr)
  finally show ?thesis .
qed

lemma getline_no_newline:
  assumes "newline \<notin> set c" and "c \<noteq> []"
  shows "getline c = Some (c, [])" and "getline (c @ newline # s) = Some (c, s)"
proof -
  let ?P = "\<lambda>x. x \<noteq> newline"
  from assms(1) have tw: "takeWhile ?P (c @ t) = c @ takeWhile ?P t"
    and dw: "dropWhile ?P (c @ t) = dropWhile ?P t" for t
    by (induction c) auto
  from assms(2) have "getline c = Some (takeWhile ?P (c @ []), drop 1 (dropWhile ?P (c @ [])))"
    by (simp only: getline_def if_False append_Nil2)
  also have "\<dots> = Some (c, [])"
    by (simp only: tw dw) simp
  finally show "getline c = Some (c, [])" .
  from assms(2) have "c @ newline # s \<noteq> []" by simp
  then have "getline (c @ newline # s)
               = Some (takeWhile ?P (c @ newline # s), drop 1 (dropWhile ?P (c @ newline # s)))"
    by (simp only: getline_def if_False)
  also have "\<dots> = Some (c, s)"
    by (simp only: tw dw) simp
  finally show "getline (c @ newline # s) = Some (c, s)" .
qed

lemma rest_last:
  assumes "drop 1 (dropWhile P c) \<noteq> []"
  shows "last (drop 1 (dropWhile P c)) = last c"
proof -
  have r: "drop 1 (dropWhile P c) = drop (Suc (length (takeWhile P c))) c"
    by (simp add: dropWhile_eq_drop)
  from assms [unfolded r] have "Suc (length (takeWhile P c)) < length c" by simp
  then show ?thesis unfolding r by (rule last_drop)
qed

lemma rest_nonempty:
  assumes "newline \<in> set c" and "last c \<noteq> newline"
  shows "drop 1 (dropWhile (\<lambda>x. x \<noteq> newline) c) \<noteq> []"
proof
  let ?d = "dropWhile (\<lambda>x. x \<noteq> newline) c"
  assume e: "drop 1 ?d = []"
  from assms(1) have ne: "?d \<noteq> []"
    by auto
  then have "hd ?d = newline" using hd_dropWhile [OF ne] by simp
  with ne e have "?d = [newline]" by (cases ?d) simp_all
  then have "c = takeWhile (\<lambda>x. x \<noteq> newline) c @ [newline]"
    using takeWhile_dropWhile_id [of "\<lambda>x. x \<noteq> newline" c] by simp
  then have "last c = newline" by (metis last_snoc)
  with assms(2) show False by contradiction
qed

lemma getline_done_follows:
  assumes "done_follows c c'" and "c \<noteq> []"
  shows "\<exists>l r r'. getline c = Some (l, r) \<and> getline c' = Some (l, r') \<and> done_follows r r'"
proof (cases "newline \<in> set c")
  case False
  with last_in_set [OF assms(2)] have "last c \<noteq> newline" by metis
  with assms have c': "c' = c @ newline # ''done''"
    by (auto simp: done_follows_def append_done_def)
  have "done_follows [] ''done''"
    by (simp add: done_follows_def append_done_def)
  with getline_no_newline [OF False assms(2)] c' show ?thesis by blast
next
  case True
  let ?r = "drop 1 (dropWhile (\<lambda>x. x \<noteq> newline) c)"
  have g: "getline c = Some (takeWhile (\<lambda>x. x \<noteq> newline) c, ?r)"
    using getline_append [OF True, of "[]"] by simp
  show ?thesis
  proof (cases "last c = newline")
    case l: True
    with assms have c': "c' = c @ ''done''"
      by (auto simp: done_follows_def append_done_def)
    have "?r = [] \<or> last ?r = newline"
      using rest_last [of "\<lambda>x. x \<noteq> newline" c] l by metis
    then have "done_follows ?r (?r @ ''done'')"
      by (auto simp: done_follows_def append_done_def)
    with g getline_append [OF True, of "''done''"] c' show ?thesis by blast
  next
    case l: False
    with assms have c': "c' = c @ newline # ''done''"
      by (auto simp: done_follows_def append_done_def)
    have ne: "?r \<noteq> []" by (rule rest_nonempty [OF True l])
    with l have "last ?r \<noteq> newline"
      using rest_last [of "\<lambda>x. x \<noteq> newline" c] by metis
    with ne have "done_follows ?r (?r @ newline # ''done'')"
      by (auto simp: done_follows_def append_done_def)
    with g getline_append [OF True, of "newline # ''done''"] c' show ?thesis by blast
  qed
qed

lemma done_follows_Nil: "done_follows [] c' \<Longrightarrow> c' = ''done'' \<or> c' = []"
  by (auto simp: done_follows_def append_done_def)

lemma ReadIndex_done_follows:
  assumes "done_follows c c'"
  shows "fst (ReadIndex c') = fst (ReadIndex c)
         \<and> done_follows (snd (ReadIndex c)) (snd (ReadIndex c'))"
proof (cases "c = []")
  case True
  with assms have "c' = ''done'' \<or> c' = []" by (simp add: done_follows_Nil)
  with True show ?thesis
    by (auto simp: ReadIndex_def getline_done stoi_done done_follows_def)
next
  case False
  from getline_done_follows [OF assms False] obtain l r r'
    where "getline c = Some (l, r)" "getline c' = Some (l, r')" "done_follows r r'" by blast
  then show ?thesis
    by (simp add: ReadIndex_def split: sum.splits)
qed

lemma ReadLine_done_follows:
  assumes "done_follows c c'"
  shows "(fst (ReadLine c') = ''right'') = (fst (ReadLine c) = ''right'')
         \<and> done_follows (snd (ReadLine c)) (snd (ReadLine c'))"
proof (cases "c = []")
  case True
  with assms have "c' = ''done'' \<or> c' = []" by (simp add: done_follows_Nil)
  with True show ?thesis
    by (auto simp: ReadLine_def getline_done done_follows_def)
next
  case False
  from getline_done_follows [OF assms False] obtain l r r'
    where "getline c = Some (l, r)" "getline c' = Some (l, r')" "done_follows r r'" by blast
  then show ?thesis
    by (simp add: ReadLine_def)
qed

lemma CreateMacro_step_done_follows:
  assumes "done_follows c c'"
  shows "fst (CreateMacro_step m stp c') = fst (CreateMacro_step m stp c)
         \<and> done_follows (snd (CreateMacro_step m stp c)) (snd (CreateMacro_step m stp c'))"
proof -
  note i1 = ReadIndex_done_follows [OF assms]
  then have d1: "done_follows (snd (ReadIndex c)) (snd (ReadIndex c'))" by simp
  note i2 = ReadIndex_done_follows [OF d1]
  note l1 = ReadLine_done_follows [OF assms]
  show ?thesis
    using i1 i2 l1 assms by (simp add: CreateMacro_step_def case_prod_beta)
qed

lemma CreateMacro_loop_done_follows:
  "done_follows c c' \<Longrightarrow> fst (CreateMacro_loop m c') = fst (CreateMacro_loop m c)"
proof (induction m c arbitrary: c' rule: CreateMacro_loop.induct)
  case (1 macro cin)
  show ?case
  proof (cases "cin = []")
    case True
    with "1.prems" have "c' = ''done'' \<or> c' = []" by (simp add: done_follows_Nil)
    with True show ?thesis
      by (auto simp: CreateMacro_loop.simps [of macro "[]"]
          CreateMacro_loop.simps [of macro "''done''"] getline_done)
  next
    case False
    from getline_done_follows [OF "1.prems" False] obtain l r r'
      where g: "getline cin = Some (l, r)" and g': "getline c' = Some (l, r')"
        and d: "done_follows r r'" by blast
    show ?thesis
    proof (cases "l = ''done''")
      case True
      with g g' show ?thesis
        by (simp add: CreateMacro_loop.simps [of macro cin] CreateMacro_loop.simps [of macro c'])
    next
      case False
      obtain m1 c1 where s: "CreateMacro_step macro l r = (m1, c1)"
        by (cases "CreateMacro_step macro l r")
      obtain m1' c1' where s': "CreateMacro_step macro l r' = (m1', c1')"
        by (cases "CreateMacro_step macro l r'")
      from CreateMacro_step_done_follows [OF d, of macro l] s s'
      have m: "m1' = m1" and d1: "done_follows c1 c1'" by simp_all
      have "fst (CreateMacro_loop m1 c1') = fst (CreateMacro_loop m1 c1)"
        by (rule "1.IH" [OF g refl False s [symmetric] d1])
      with g g' False s s' m show ?thesis
        by (simp add: CreateMacro_loop.simps [of macro cin] CreateMacro_loop.simps [of macro c'])
    qed
  qed
qed

lemma CreateMacro_loop_name: "name (fst (CreateMacro_loop macro cin)) = name macro"
  by (rule CreateMacro_loop_invariant [where P = "\<lambda>m. name m = name macro"])
     (simp_all add: CreateMacro_step_def case_prod_beta push_action_def)

lemma CreateMacro_loop_Nil: "CreateMacro_loop macro [] = (macro, [])"
  by (simp add: CreateMacro_loop.simps [of macro "[]"])

text \<open>
  Claim C9. When a non-empty name has been entered, the macro is appended to the store
  however the step loop ends, and it carries that name. If the input ends while steps are
  being entered, the store is the one obtained when \<open>done\<close> is typed at that point, and at
  the step prompt itself the end of the input returns the macro with the steps
  accumulated so far, possibly none.
\<close>

theorem CreateMacro_EOF_like_done:
  assumes "ReadLine cin = (nm, cin1)" and "nm \<noteq> []"
  shows "fst (CreateMacro macros cin)
           = macros @ [fst (CreateMacro_loop \<lparr>name = nm, actions = []\<rparr> cin1)]
         \<and> name (fst (CreateMacro_loop \<lparr>name = nm, actions = []\<rparr> cin1)) = nm
         \<and> fst (CreateMacro macros (append_done cin)) = fst (CreateMacro macros cin)
         \<and> CreateMacro_loop macro [] = (macro, [])"
proof (intro conjI)
  show a: "fst (CreateMacro macros cin)
           = macros @ [fst (CreateMacro_loop \<lparr>name = nm, actions = []\<rparr> cin1)]"
    using assms by (simp add: CreateMacro_def case_prod_beta)
  show "name (fst (CreateMacro_loop \<lparr>name = nm, actions = []\<rparr> cin1)) = nm"
    by (simp add: CreateMacro_loop_name)
  show "CreateMacro_loop macro [] = (macro, [])"
    by (rule CreateMacro_loop_Nil)
  from assms have ne: "cin \<noteq> []"
    by (auto simp: ReadLine_def)
  have "done_follows cin (append_done cin)"
    by (simp add: done_follows_def)
  from getline_done_follows [OF this ne] obtain l r r'
    where g: "getline cin = Some (l, r)" and g': "getline (append_done cin) = Some (l, r')"
      and d: "done_follows r r'" by blast
  from g assms have l: "l = nm" "r = cin1"
    by (simp_all add: ReadLine_def)
  from g' l have "ReadLine (append_done cin) = (nm, r')"
    by (simp add: ReadLine_def)
  with assms(2) have "fst (CreateMacro macros (append_done cin))
           = macros @ [fst (CreateMacro_loop \<lparr>name = nm, actions = []\<rparr> r')]"
    by (simp add: CreateMacro_def case_prod_beta)
  also have "fst (CreateMacro_loop \<lparr>name = nm, actions = []\<rparr> r')
               = fst (CreateMacro_loop \<lparr>name = nm, actions = []\<rparr> cin1)"
    using CreateMacro_loop_done_follows [OF d] l by simp
  finally show "fst (CreateMacro macros (append_done cin)) = fst (CreateMacro macros cin)"
    using a by simp
qed

lemmas create_eval =
  CreateMacro_def ReadLine_def ReadIndex_def getline_def newline_def CreateMacro_loop.simps
  CreateMacro_step_def stoi_def scan_integer_def scan_sign_def isspace_def isdigit_def
  digits_value_def digit_value_def in_int_range_def push_action_def mk_action_def

text \<open>A session that ends at the prompt for the button of a click.\<close>

theorem CreateMacro_EOF_witness:
  "fst (CreateMacro [] (''nm'' @ [newline] @ ''move'' @ [newline] @ ''3'' @ [newline] @ ''4''
          @ [newline] @ ''click'' @ [newline]))
     = [\<lparr>name = ''nm'', actions = [mk_action Move 3 4, mk_action Click 0 0]\<rparr>]
   \<and> fst (CreateMacro [] (''nm'' @ [newline] @ ''move'' @ [newline] @ ''3'' @ [newline] @ ''4''
          @ [newline] @ ''click'' @ [newline] @ ''done''))
     = [\<lparr>name = ''nm'', actions = [mk_action Move 3 4, mk_action Click 0 0]\<rparr>]"
proof -
  let ?cin = "''nm'' @ [newline] @ ''move'' @ [newline] @ ''3'' @ [newline] @ ''4''
          @ [newline] @ ''click'' @ [newline]"
  have r: "ReadLine ?cin = (''nm'', ''move'' @ [newline] @ ''3'' @ [newline] @ ''4''
          @ [newline] @ ''click'' @ [newline])"
    by (simp add: ReadLine_def getline_def newline_def)
  have ne: "''nm'' \<noteq> []" by simp
  have e: "fst (CreateMacro [] ?cin)
     = [\<lparr>name = ''nm'', actions = [mk_action Move 3 4, mk_action Click 0 0]\<rparr>]"
    by (simp add: create_eval)
  have ad: "append_done ?cin = ?cin @ ''done''"
    by (simp add: append_done_def)
  from CreateMacro_EOF_like_done [OF r ne, of "[]" Macro_init]
  have "fst (CreateMacro [] (append_done ?cin)) = fst (CreateMacro [] ?cin)"
    by (elim conjE)
  with e ad show ?thesis by simp
qed

subsection \<open>Printing and reading integers\<close>

lemma digit_char_props:
  assumes "k < 10"
  shows "isdigit (char_of (48 + k))" and "digit_value (char_of (48 + k)) = k"
    and "\<not> isspace (char_of (48 + k))" and "char_of (48 + k) \<noteq> CHR ''-''"
    and "char_of (48 + k) \<noteq> CHR ''+''" and "char_of (48 + k) \<noteq> newline"
proof -
  have oc: "of_char (char_of (48 + k)) = 48 + k"
    using assms by simp
  have ne: "char_of (48 + k) \<noteq> c" if "of_char c \<noteq> 48 + k" for c :: char
    using that oc by auto
  show "isdigit (char_of (48 + k))"
    using assms by (simp add: isdigit_def)
  show "digit_value (char_of (48 + k)) = k"
    using assms by (simp add: digit_value_def)
  show "\<not> isspace (char_of (48 + k))"
    unfolding isspace_def using ne [of "CHR '' ''"] ne [of "CHR 0x09"] ne [of "CHR 0x0A"]
      ne [of "CHR 0x0B"] ne [of "CHR 0x0C"] ne [of "CHR 0x0D"]
    by simp
  show "char_of (48 + k) \<noteq> CHR ''-''"
    by (rule ne) simp
  show "char_of (48 + k) \<noteq> CHR ''+''"
    by (rule ne) simp
  show "char_of (48 + k) \<noteq> newline"
    unfolding newline_def by (rule ne) simp
qed

lemma show_nat_Cons:
  "\<exists>c cs. show_nat n = c # cs \<and> isdigit c \<and> \<not> isspace c \<and> c \<noteq> CHR ''-'' \<and> c \<noteq> CHR ''+''"
proof (induction n rule: show_nat.induct)
  case (1 n)
  show ?case
  proof (cases "n < 10")
    case True
    then show ?thesis
      by (simp add: show_nat.simps [of n] digit_char_props)
  next
    case False
    from "1.IH" [OF False] obtain c cs where "show_nat (n div 10) = c # cs"
      and "isdigit c \<and> \<not> isspace c \<and> c \<noteq> CHR ''-'' \<and> c \<noteq> CHR ''+''" by blast
    with False show ?thesis
      by (simp add: show_nat.simps [of n])
  qed
qed

lemma show_nat_digits: "list_all isdigit (show_nat n)"
proof (induction n rule: show_nat.induct)
  case (1 n)
  show ?case
  proof (cases "n < 10")
    case True
    then show ?thesis by (simp add: show_nat.simps [of n] digit_char_props)
  next
    case False
    with "1.IH" show ?thesis
      by (simp add: show_nat.simps [of n] digit_char_props)
  qed
qed

lemma digits_value_snoc: "digits_value (ds @ [c]) = 10 * digits_value ds + digit_value c"
  by (simp add: digits_value_def)

lemma digits_value_show_nat: "digits_value (show_nat n) = n"
proof (induction n rule: show_nat.induct)
  case (1 n)
  show ?case
  proof (cases "n < 10")
    case True
    then show ?thesis
      by (simp add: show_nat.simps [of n] digits_value_def digit_char_props)
  next
    case False
    with "1.IH" show ?thesis
      by (simp add: show_nat.simps [of n] digits_value_snoc digit_char_props)
  qed
qed

lemma show_nat_no_newline: "newline \<notin> set (show_nat n)"
proof (induction n rule: show_nat.induct)
  case (1 n)
  show ?case
  proof (cases "n < 10")
    case True
    then show ?thesis using digit_char_props(6) [of n]
      by (simp add: show_nat.simps [of n])
  next
    case False
    with "1.IH" show ?thesis using digit_char_props(6) [of "n mod 10"]
      by (simp add: show_nat.simps [of n])
  qed
qed

text \<open>What follows a printed number in the file: nothing or a character that is no digit.\<close>

lemma takeWhile_digits:
  assumes "list_all isdigit ds" and "rest = [] \<or> \<not> isdigit (hd rest)"
  shows "takeWhile isdigit (ds @ rest) = ds" and "dropWhile isdigit (ds @ rest) = rest"
  using assms by (induction ds) (auto simp: takeWhile_eq_Nil_iff dropWhile_eq_self_iff)

lemma scan_integer_show_int:
  assumes "rest = [] \<or> \<not> isdigit (hd rest)"
  shows "scan_integer (CHR '' '' # show_int i @ rest) = Some (i, rest)"
proof -
  obtain c cs where sn: "show_nat (nat \<bar>i\<bar>) = c # cs" and c: "isdigit c" "\<not> isspace c"
    "c \<noteq> CHR ''-''" "c \<noteq> CHR ''+''"
    using show_nat_Cons [of "nat \<bar>i\<bar>"] by blast
  have sp: "isspace CHR '' ''" by (simp add: isspace_def)
  have ms: "\<not> isspace CHR ''-''" by (simp add: isspace_def)
  note tw = takeWhile_digits [OF show_nat_digits assms, of "nat \<bar>i\<bar>"]
  have dv: "digits_value (c # cs) = nat \<bar>i\<bar>"
    using digits_value_show_nat [of "nat \<bar>i\<bar>"] sn by simp
  show ?thesis
  proof (cases "i < 0")
    case True
    then have si: "show_int i = CHR ''-'' # c # cs"
      using sn by (simp add: show_int_def abs_if)
    from True tw sn dv show ?thesis
      by (simp add: scan_integer_def si sp ms scan_sign_def)
  next
    case False
    then have si: "show_int i = c # cs"
      using sn by (simp add: show_int_def abs_if)
    from False tw sn dv c show ?thesis
      by (simp add: scan_integer_def si sp scan_sign_def)
  qed
qed

lemma extract_int_put_int:
  assumes "rest = [] \<or> \<not> isdigit (hd rest)"
  shows "extract_int (CHR '' '' # put_int w @ rest) = Some (w, rest)"
proof -
  have "in_int_range (sint w)"
    using sint_ge [of w] sint_lt [of w] by (simp add: in_int_range_def)
  then show ?thesis
    by (simp add: extract_int_def put_int_def scan_integer_show_int [OF assms])
qed

lemma put_int_no_newline: "newline \<notin> set (put_int w)"
  using show_nat_no_newline by (simp add: put_int_def show_int_def newline_def)

subsection \<open>Macro file: encoding followed by decoding\<close>

lemma takeWhile_line:
  "newline \<notin> set l \<Longrightarrow> takeWhile (\<lambda>c. c \<noteq> newline) (l @ newline # s) = l"
  by (induction l) auto

lemma action_line_cases:
  "action_line act =
     (case act_type act of
        Move \<Rightarrow> ''move '' @ put_int (act_a act) @ '' '' @ put_int (act_b act)
      | Click \<Rightarrow> ''click '' @ (if act_a act = 1 then ''right'' else ''left'')
      | Key \<Rightarrow> ''key '' @ put_int (act_a act)
      | Delay \<Rightarrow> ''delay '' @ put_int (act_a act))"
proof (cases "act_type act")
  case Move
  have "newline \<notin> set (''move '' @ put_int (act_a act) @ '' '' @ put_int (act_b act))"
    using put_int_no_newline by (simp add: newline_def)
  from takeWhile_line [OF this, of "[]"] Move show ?thesis
    by (simp add: action_line_def put_action_def)
next
  case Click
  have "newline \<notin> set (''click '' @ (if act_a act = 1 then ''right'' else ''left''))"
    by (simp add: newline_def)
  from takeWhile_line [OF this, of "[]"] Click show ?thesis
    by (simp add: action_line_def put_action_def)
next
  case Key
  have "newline \<notin> set (''key '' @ put_int (act_a act))"
    using put_int_no_newline by (simp add: newline_def)
  from takeWhile_line [OF this, of "[]"] Key show ?thesis
    by (simp add: action_line_def put_action_def)
next
  case Delay
  have "newline \<notin> set (''delay '' @ put_int (act_a act))"
    using put_int_no_newline by (simp add: newline_def)
  from takeWhile_line [OF this, of "[]"] Delay show ?thesis
    by (simp add: action_line_def put_action_def)
qed

lemma put_action_line:
  shows "put_action act = action_line act @ [newline]"
    and "newline \<notin> set (action_line act)"
proof -
  show "put_action act = action_line act @ [newline]"
    by (cases "act_type act") (simp_all add: action_line_cases put_action_def)
  show "newline \<notin> set (action_line act)"
    using put_int_no_newline
    by (cases "act_type act") (simp_all add: action_line_cases newline_def)
qed

lemma extract_int_put_int_end: "extract_int (CHR '' '' # put_int w) = Some (w, [])"
  using extract_int_put_int [of "[]" w] by simp

lemma extract_int_put_int_space:
  "extract_int (CHR '' '' # put_int w @ CHR '' '' # s) = Some (w, CHR '' '' # s)"
  by (rule extract_int_put_int) (simp add: isdigit_def)

text \<open>The line written for an action of the data model decodes to that action.\<close>

lemma decode_action_line:
  assumes "wf_action act"
  shows "decode_step (action_line act) = Some act" and "is_step_line (action_line act)"
proof -
  have tok: "extract_string (''move '' @ r) = Some (''move'', CHR '' '' # r)"
    "extract_string (''click '' @ r) = Some (''click'', CHR '' '' # r)"
    "extract_string (''key '' @ r) = Some (''key'', CHR '' '' # r)"
    "extract_string (''delay '' @ r) = Some (''delay'', CHR '' '' # r)" for r
    by (simp_all add: extract_string_def isspace_def)
  have btn: "extract_string '' right'' = Some (''right'', [])"
    "extract_string '' left'' = Some (''left'', [])"
    by (simp_all add: extract_string_def isspace_def)
  have rec: "mk_action (act_type act) (act_a act) (act_b act) = act"
    by (cases act) (simp add: mk_action_def)
  show "decode_step (action_line act) = Some act"
  proof (cases "act_type act")
    case Move
    with rec have "mk_action Move (act_a act) (act_b act) = act" by simp
    with Move tok(1) [of "put_int (act_a act) @ '' '' @ put_int (act_b act)"] show ?thesis
      by (simp add: action_line_cases decode_step_def line_token_def line_args_def
          first_token_def step_action_def extract_int_put_int_space extract_int_put_int_end)
  next
    case Click
    with assms have ab: "act_a act = 0 \<or> act_a act = 1" "act_b act = 0"
      by (simp_all add: wf_action_def)
    with Click rec have r: "mk_action Click (act_a act) 0 = act" by simp
    from ab(1) show ?thesis
    proof
      assume z: "act_a act = 0"
      with Click r tok(2) [of "''left''"] btn show ?thesis
        by (simp add: action_line_cases decode_step_def line_token_def line_args_def
            first_token_def step_action_def)
    next
      assume o: "act_a act = 1"
      with Click r tok(2) [of "''right''"] btn show ?thesis
        by (simp add: action_line_cases decode_step_def line_token_def line_args_def
            first_token_def step_action_def)
    qed
  next
    case Key
    with assms have "act_b act = 0" by (simp add: wf_action_def)
    with Key rec have "mk_action Key (act_a act) 0 = act" by simp
    with Key tok(3) [of "put_int (act_a act)"] show ?thesis
      by (simp add: action_line_cases decode_step_def line_token_def line_args_def
          first_token_def step_action_def extract_int_put_int_end)
  next
    case Delay
    with assms have "act_b act = 0" by (simp add: wf_action_def)
    with Delay rec have "mk_action Delay (act_a act) 0 = act" by simp
    with Delay tok(4) [of "put_int (act_a act)"] show ?thesis
      by (simp add: action_line_cases decode_step_def line_token_def line_args_def
          first_token_def step_action_def extract_int_put_int_end)
  qed
  show "is_step_line (action_line act)"
  proof (cases "act_type act")
    case Move
    with tok(1) [of "put_int (act_a act) @ '' '' @ put_int (act_b act)"] show ?thesis
      by (simp add: action_line_cases is_step_line_def line_token_def first_token_def)
  next
    case Click
    with tok(2) [of "if act_a act = 1 then ''right'' else ''left''"] show ?thesis
      by (simp add: action_line_cases is_step_line_def line_token_def first_token_def)
  next
    case Key
    with tok(3) [of "put_int (act_a act)"] show ?thesis
      by (simp add: action_line_cases is_step_line_def line_token_def first_token_def)
  next
    case Delay
    with tok(4) [of "put_int (act_a act)"] show ?thesis
      by (simp add: action_line_cases is_step_line_def line_token_def first_token_def)
  qed
qed

lemma parsed_steps_action_lines:
  "list_all wf_action acts \<Longrightarrow> parsed_steps (map action_line acts) = acts"
  by (induction acts) (simp_all add: decode_action_line)

text \<open>The lines of the written text.\<close>

lemma getline_line:
  assumes "newline \<notin> set l"
  shows "getline (l @ newline # s) = Some (l, s)"
proof (cases "l = []")
  case True
  then show ?thesis by (simp add: getline_def)
next
  case False
  with assms show ?thesis by (rule getline_no_newline(2))
qed

lemma read_lines_Nil: "read_lines [] = []"
  by (simp add: read_lines.simps [of "[]"])

lemma read_lines_line:
  "newline \<notin> set l \<Longrightarrow> read_lines (l @ newline # s) = l # read_lines s"
  by (simp add: read_lines.simps [of "l @ newline # s"] getline_line)

lemma read_lines_actions:
  "read_lines (concat (map put_action acts) @ s) = map action_line acts @ read_lines s"
proof (induction acts)
  case Nil
  show ?case by simp
next
  case (Cons act acts)
  have "read_lines (action_line act @ newline # (concat (map put_action acts) @ s))
          = action_line act # read_lines (concat (map put_action acts) @ s)"
    by (rule read_lines_line [OF put_action_line(2)])
  with Cons.IH show ?case
    by (simp add: put_action_line(1) [of act])
qed

lemma read_lines_macro:
  assumes "newline \<notin> set (name m)"
  shows "read_lines (put_macro m @ s) = macro_lines m @ read_lines s"
proof -
  have e: "newline \<notin> set ''end''" by (simp add: newline_def)
  from assms have h: "newline \<notin> set (''macro '' @ name m)" by (simp add: newline_def)
  have "put_macro m @ s
          = (''macro '' @ name m) @ newline # (concat (map put_action (actions m))
              @ (''end'' @ newline # s))"
    by (simp add: put_macro_def)
  then have "read_lines (put_macro m @ s)
          = (''macro '' @ name m) # read_lines (concat (map put_action (actions m))
              @ (''end'' @ newline # s))"
    using read_lines_line [OF h] by simp
  also have "\<dots> = (''macro '' @ name m) # map action_line (actions m)
              @ read_lines (''end'' @ newline # s)"
    by (simp only: read_lines_actions)
  also have "read_lines (''end'' @ newline # s) = ''end'' # read_lines s"
    by (rule read_lines_line [OF e])
  finally show ?thesis by (simp add: macro_lines_def)
qed

lemma read_lines_macros:
  "\<forall>m \<in> set ms. newline \<notin> set (name m)
   \<Longrightarrow> read_lines (concat (map put_macro ms)) = concat (map macro_lines ms)"
proof (induction ms)
  case Nil
  show ?case by (simp add: read_lines_Nil)
next
  case (Cons m ms)
  then show ?case
    using read_lines_macro [of m "concat (map put_macro ms)"] by simp
qed

text \<open>Decoding the lines of one written macro, and of a written store.\<close>

lemma header_line:
  assumes "newline \<notin> set nm"
  shows "line_token (''macro '' @ nm) = ''macro''" and "header_name (''macro '' @ nm) = nm"
proof -
  have ft: "first_token (''macro '' @ nm) = (''macro'', CHR '' '' # nm)"
    by (simp add: first_token_def extract_string_def isspace_def)
  then show "line_token (''macro '' @ nm) = ''macro''"
    by (simp add: line_token_def)
  from assms have "newline \<notin> set (CHR '' '' # nm)" by (simp add: newline_def)
  then have "getline (CHR '' '' # nm) = Some (CHR '' '' # nm, [])"
    by (rule getline_no_newline(1)) simp
  with ft show "header_name (''macro '' @ nm) = nm"
    by (simp add: header_name_def line_args_def read_name_def)
qed

lemma end_line: "LoadMacros_line (ms, cur, True) ''end'' = (ms @ [cur], Macro_init, False)"
  by (simp add: LoadMacros_line.simps first_token_def extract_string_def isspace_def)

lemma decode_macro_block:
  assumes "wf_macro m"
  shows "foldl LoadMacros_line (ms, Macro_init, False) (macro_lines m)
           = (ms @ [m], Macro_init, False)"
proof -
  from assms have nl: "newline \<notin> set (name m)" and wf: "list_all wf_action (actions m)"
    by (simp_all add: wf_macro_def)
  let ?h = "''macro '' @ name m" and ?steps = "map action_line (actions m)"
  have inv: "load_inv (ms, Macro_init, False)" by (simp add: load_inv_def)
  have "LoadMacros_line (ms, Macro_init, False) ?h
          = (ms, \<lparr>name = name m, actions = []\<rparr>, True)"
    using LoadMacros_line_header [OF header_line(1) [OF nl] inv] header_line(2) [OF nl]
    by (simp add: LoadMacros_finish_def)
  moreover have "\<forall>l \<in> set ?steps. is_step_line l"
    using wf by (auto simp: list_all_iff decode_action_line(2))
  then have "foldl LoadMacros_line (ms, \<lparr>name = name m, actions = []\<rparr>, True) ?steps
          = (ms, \<lparr>name = name m, actions = []\<rparr>\<lparr>actions := [] @ parsed_steps ?steps\<rparr>, True)"
    using foldl_steps [of ?steps ms "\<lparr>name = name m, actions = []\<rparr>"] by simp
  moreover have "\<lparr>name = name m, actions = []\<rparr>\<lparr>actions := [] @ parsed_steps ?steps\<rparr> = m"
    using parsed_steps_action_lines [OF wf] by simp
  ultimately have "foldl LoadMacros_line (ms, Macro_init, False) (?h # ?steps) = (ms, m, True)"
    by simp
  then have "foldl LoadMacros_line (ms, Macro_init, False) ((?h # ?steps) @ [''end''])
               = LoadMacros_line (ms, m, True) ''end''"
    by (simp only: foldl_append foldl_Cons foldl_Nil)
  then show ?thesis
    by (simp add: macro_lines_def end_line)
qed

lemma decode_macro_blocks:
  "\<forall>m \<in> set ms. wf_macro m
   \<Longrightarrow> foldl LoadMacros_line (acc, Macro_init, False) (concat (map macro_lines ms))
         = (acc @ ms, Macro_init, False)"
proof (induction ms arbitrary: acc)
  case Nil
  show ?case by simp
next
  case (Cons m ms)
  then have m: "wf_macro m" and rest: "\<forall>m \<in> set ms. wf_macro m" by simp_all
  show ?case
    by (simp add: decode_macro_block [OF m] Cons.IH [OF rest])
qed

lemma LoadMacros_SaveMacros:
  assumes "\<forall>m \<in> set ms. wf_macro m"
  shows "LoadMacros (SaveMacros True ms) = ms"
proof -
  from assms have "\<forall>m \<in> set ms. newline \<notin> set (name m)"
    by (simp add: wf_macro_def)
  then have "read_lines (concat (map put_macro ms)) = concat (map macro_lines ms)"
    by (rule read_lines_macros)
  then show ?thesis
    by (simp add: SaveMacros_def LoadMacros_lines decode_lines_def
        decode_macro_blocks [OF assms] LoadMacros_finish_def)
qed

subsection \<open>The stores the program holds\<close>

lemma step_action_wf: "step_action t iss = Some act \<Longrightarrow> wf_action act"
  by (auto simp: step_action_def wf_action_def mk_action_def split: if_splits option.splits)

lemma getline_no_newline_in_line: "getline s = Some (l, r) \<Longrightarrow> newline \<notin> set l"
  by (auto simp: getline_def split: if_splits dest: set_takeWhileD)

lemma read_name_no_newline:
  assumes "newline \<notin> set old"
  shows "newline \<notin> set (read_name iss old)"
proof -
  let ?nm = "case getline iss of None \<Rightarrow> old | Some (l, r) \<Rightarrow> l"
  have "newline \<notin> set ?nm"
    using assms getline_no_newline_in_line [of iss]
    by (auto split: option.splits)
  moreover have "set (drop 1 ?nm) \<subseteq> set ?nm"
    by (rule set_drop_subset)
  ultimately show ?thesis
    by (auto simp: read_name_def Let_def)
qed

lemma wf_macro_init: "wf_macro Macro_init"
  by (simp add: wf_macro_def Macro_init_def)

lemma LoadMacros_line_wf:
  assumes "list_all wf_macro ms" and "wf_macro cur"
    and "LoadMacros_line (ms, cur, b) l = (ms', cur', b')"
  shows "list_all wf_macro ms' \<and> wf_macro cur'"
proof (cases "line_token l = ''macro''")
  case True
  then have ne: "l \<noteq> []" by auto
  let ?c1 = "if b then Macro_init else cur"
  from assms(2) have c1: "wf_macro ?c1" by (simp add: wf_macro_init)
  then have "wf_macro (?c1\<lparr>name := read_name (line_args l) (name ?c1)\<rparr>)"
    using read_name_no_newline [of "name ?c1" "line_args l"] by (simp add: wf_macro_def)
  with True ne assms show ?thesis
    by (auto simp: LoadMacros_line.simps first_token_split split: if_splits)
next
  case False
  show ?thesis
  proof (cases "line_token l = ''end''")
    case True
    with False assms show ?thesis
      by (auto simp: LoadMacros_line.simps first_token_split wf_macro_init split: if_splits)
  next
    case e: False
    with False have s: "is_step_line l" by (simp add: is_step_line_def)
    show ?thesis
    proof (cases b)
      case True
      have "list_all wf_action (parsed_steps [l])"
        by (auto simp: decode_step_def split: option.splits dest: step_action_wf)
      with True assms LoadMacros_line_step [OF s, of ms cur] show ?thesis
        by (auto simp: wf_macro_def)
    next
      case b: False
      with assms LoadMacros_line_outside [OF False, of ms cur] show ?thesis
        by auto
    qed
  qed
qed

lemma foldl_wf:
  assumes "list_all wf_macro ms" and "wf_macro cur"
    and "foldl LoadMacros_line (ms, cur, b) ls = (ms', cur', b')"
  shows "list_all wf_macro ms' \<and> wf_macro cur'"
  using assms
proof (induction ls arbitrary: ms cur b)
  case Nil
  then show ?case by simp
next
  case (Cons l ls)
  obtain ms1 cur1 b1 where s: "LoadMacros_line (ms, cur, b) l = (ms1, cur1, b1)"
    by (cases "LoadMacros_line (ms, cur, b) l")
  from LoadMacros_line_wf [OF Cons.prems(1,2) s]
  have "list_all wf_macro ms1" and "wf_macro cur1" by simp_all
  moreover from Cons.prems(3) s have "foldl LoadMacros_line (ms1, cur1, b1) ls = (ms', cur', b')"
    by simp
  ultimately show ?case by (rule Cons.IH)
qed

lemma LoadMacros_wf: "list_all wf_macro (LoadMacros file)"
proof (cases "file")
  case None
  then show ?thesis by (simp add: LoadMacros_def)
next
  case (Some inp)
  obtain ms cur b
    where s: "foldl LoadMacros_line ([], Macro_init, False) (read_lines inp) = (ms, cur, b)"
    by (cases "foldl LoadMacros_line ([], Macro_init, False) (read_lines inp)")
  have "list_all wf_macro ms \<and> wf_macro cur"
    by (rule foldl_wf [OF _ _ s]) (simp_all add: wf_macro_init)
  with Some s show ?thesis
    by (simp add: LoadMacros_def LoadMacros_loop_lines LoadMacros_finish_def)
qed

lemma CreateMacro_step_wf: "wf_macro m \<Longrightarrow> wf_macro (fst (CreateMacro_step m stp s))"
  by (simp add: CreateMacro_step_def case_prod_beta push_action_def mk_action_def
      wf_macro_def wf_action_def)

lemma CreateMacro_wf:
  assumes "list_all wf_macro ms"
  shows "list_all wf_macro (fst (CreateMacro ms cin))"
proof -
  have "newline \<notin> set (fst (ReadLine cin))"
    using getline_no_newline_in_line [of cin]
    by (auto simp: ReadLine_def split: option.splits)
  then have "wf_macro \<lparr>name = fst (ReadLine cin), actions = []\<rparr>"
    by (simp add: wf_macro_def)
  then have "wf_macro (fst (CreateMacro_loop \<lparr>name = fst (ReadLine cin), actions = []\<rparr>
      (snd (ReadLine cin))))"
    by (rule CreateMacro_loop_invariant) (rule CreateMacro_step_wf)
  with assms show ?thesis
    by (simp add: CreateMacro_def case_prod_beta)
qed

lemma set_erase: "set (erase xs i) \<subseteq> set xs"
  by (induction xs arbitrary: i) (auto split: nat.splits)

lemma delete_macro_wf:
  assumes "list_all wf_macro ms"
  shows "list_all wf_macro (fst (delete_macro ms index))"
  using assms set_erase [of ms "nat (sint index - 1)"]
  by (auto simp: delete_macro_def list_all_iff)

lemma main_store_step_wf: "list_all wf_macro ms \<Longrightarrow> list_all wf_macro (main_store_step ms op)"
  by (cases op) (simp_all add: CreateMacro_wf delete_macro_wf LoadMacros_wf)

lemma main_store_wf: "list_all wf_macro (main_store file ops)"
proof -
  have "list_all wf_macro ms \<Longrightarrow> list_all wf_macro (foldl main_store_step ms ops)" for ms
    by (induction ops arbitrary: ms) (simp_all add: main_store_step_wf)
  then show ?thesis
    unfolding main_store_def using LoadMacros_wf by blast
qed

text \<open>
  Claim C1. For every store that the program can hold (the store loaded at the start,
  changed by any sequence of create, delete and load) and whose names are non-empty,
  decoding the text that \<open>SaveMacros\<close> writes yields the store again: the same names and the
  same actions, in the same order. The names of such a store come from \<^verbatim>\<open>std::getline\<close>
  and its Click actions hold left or right.
\<close>

theorem codec_round_trip:
  assumes "\<forall>m \<in> set (main_store file ops). name m \<noteq> []"
  shows "LoadMacros (SaveMacros True (main_store file ops)) = main_store file ops"
  using main_store_wf [of "file" ops]
  by (intro LoadMacros_SaveMacros) (simp add: list_all_iff)

text \<open>A store loaded from a file and extended by one creation session.\<close>

theorem codec_round_trip_witness:
  "main_store (Some (''macro Greet'' @ [newline] @ ''key 72'' @ [newline] @ ''key 73''
       @ [newline] @ ''end'' @ [newline]))
     [OpCreate (''two words'' @ [newline] @ ''move'' @ [newline] @ ''-5'' @ [newline] @ ''7''
       @ [newline] @ ''click'' @ [newline] @ ''right'' @ [newline] @ ''delay'' @ [newline]
       @ ''200'' @ [newline] @ ''done'' @ [newline])]
   = [\<lparr>name = ''Greet'', actions = [mk_action Key 72 0, mk_action Key 73 0]\<rparr>,
      \<lparr>name = ''two words'',
       actions = [mk_action Move (- 5) 7, mk_action Click 1 0, mk_action Delay 200 0]\<rparr>]
   \<and> LoadMacros (SaveMacros True
     [\<lparr>name = ''Greet'', actions = [mk_action Key 72 0, mk_action Key 73 0]\<rparr>,
      \<lparr>name = ''two words'',
       actions = [mk_action Move (- 5) 7, mk_action Click 1 0, mk_action Delay 200 0]\<rparr>])
   = [\<lparr>name = ''Greet'', actions = [mk_action Key 72 0, mk_action Key 73 0]\<rparr>,
      \<lparr>name = ''two words'',
       actions = [mk_action Move (- 5) 7, mk_action Click 1 0, mk_action Delay 200 0]\<rparr>]"
proof -
  let ?file = "Some (''macro Greet'' @ [newline] @ ''key 72'' @ [newline] @ ''key 73''
       @ [newline] @ ''end'' @ [newline])"
  let ?cin = "''two words'' @ [newline] @ ''move'' @ [newline] @ ''-5'' @ [newline] @ ''7''
       @ [newline] @ ''click'' @ [newline] @ ''right'' @ [newline] @ ''delay'' @ [newline]
       @ ''200'' @ [newline] @ ''done'' @ [newline]"
  let ?M = "[\<lparr>name = ''Greet'', actions = [mk_action Key 72 0, mk_action Key 73 0]\<rparr>,
      \<lparr>name = ''two words'',
       actions = [mk_action Move (- 5) 7, mk_action Click 1 0, mk_action Delay 200 0]\<rparr>]"
  have l: "LoadMacros ?file = [\<lparr>name = ''Greet'', actions = [mk_action Key 72 0, mk_action Key 73 0]\<rparr>]"
    by (simp add: LoadMacros_lines decoder_eval)
  have c: "fst (CreateMacro [\<lparr>name = ''Greet'', actions = [mk_action Key 72 0, mk_action Key 73 0]\<rparr>] ?cin) = ?M"
    by (simp add: create_eval)
  have s: "main_store ?file [OpCreate ?cin] = ?M"
    by (simp only: main_store_def foldl_Cons foldl_Nil main_store_step.simps l c)
  have "\<forall>m \<in> set (main_store ?file [OpCreate ?cin]). name m \<noteq> []"
    by (simp only: s) simp
  from codec_round_trip [OF this] s show ?thesis
    by simp
qed

subsection \<open>Button codes: the mapping of button words\<close>

lemma click_line_decoded:
  assumes "line_token l = ''click''" and "extract_string (line_args l) = Some (button, r)"
  shows "LoadMacros_line (acc, cur, True) l
           = (acc, cur\<lparr>actions := actions cur
                @ [mk_action Click (if button = ''right'' then 1 else 0) 0]\<rparr>, True)"
proof -
  from assms(1) have s: "is_step_line l" by (simp add: is_step_line_def)
  from assms have "decode_step l = Some (mk_action Click (if button = ''right'' then 1 else 0) 0)"
    by (simp add: decode_step_def step_action_def)
  then have "parsed_steps [l] = [mk_action Click (if button = ''right'' then 1 else 0) 0]"
    by simp
  with LoadMacros_line_step [OF s, of acc cur] show ?thesis by simp
qed

lemma create_click_answer:
  assumes "newline \<notin> set answer"
  shows "CreateMacro_loop macro (''click'' @ newline # answer @ newline # rest)
           = CreateMacro_loop
               (push_action macro (mk_action Click (if answer = ''right'' then 1 else 0) 0)) rest"
proof -
  define code :: cint where "code = (if answer = ''right'' then 1 else 0)"
  define cin where "cin = ''click'' @ newline # answer @ newline # rest"
  have c: "newline \<notin> set ''click''" by (simp add: newline_def)
  have g: "getline cin = Some (''click'', answer @ newline # rest)"
    unfolding cin_def by (rule getline_line [OF c])
  have "ReadLine (answer @ newline # rest) = (answer, rest)"
    by (simp add: ReadLine_def getline_line [OF assms])
  then have s: "CreateMacro_step macro ''click'' (answer @ newline # rest)
          = (push_action macro (mk_action Click code 0), rest)"
    by (simp add: CreateMacro_step_def code_def)
  have "CreateMacro_loop macro cin = CreateMacro_loop (push_action macro (mk_action Click code 0)) rest"
    by (simp add: CreateMacro_loop.simps [of macro cin] g s)
  then show ?thesis
    unfolding cin_def code_def .
qed

lemma click_action_line:
  "act_type act = Click
   \<Longrightarrow> action_line act = (if act_a act = 1 then ''click right'' else ''click left'')"
  by (simp add: action_line_cases)

text \<open>
  Claim C10. Every Click action that the decoder or the interactive creation produces
  holds the button code 0 (left) or 1 (right): the decoder yields a sound store for every
  file, and creation keeps a sound store sound. In both, the button word \<open>right\<close> gives
  code 1 and any other word gives code 0: a \<open>click\<close> line inside a block appends that
  action, and so does the answer to the button prompt. The serializer writes
  \<open>click right\<close> for code 1 and \<open>click left\<close> otherwise, and for a code 0 or 1 decoding
  that line gives the same code back.
\<close>

theorem click_buttons_left_or_right:
  "buttons_ok (LoadMacros f)
   \<and> (buttons_ok ms \<longrightarrow> buttons_ok (fst (CreateMacro ms cin)))
   \<and> (line_token l = ''click'' \<and> extract_string (line_args l) = Some (button, r) \<longrightarrow>
        LoadMacros_line (acc, cur, True) l
          = (acc, cur\<lparr>actions := actions cur
               @ [mk_action Click (if button = ''right'' then 1 else 0) 0]\<rparr>, True))
   \<and> (newline \<notin> set answer \<longrightarrow>
        CreateMacro_loop macro (''click'' @ newline # answer @ newline # rest)
          = CreateMacro_loop
              (push_action macro (mk_action Click (if answer = ''right'' then 1 else 0) 0)) rest)
   \<and> (act_type act = Click \<longrightarrow>
        action_line act = (if act_a act = 1 then ''click right'' else ''click left''))
   \<and> (act_type act = Click \<and> click_ok act \<longrightarrow>
        decode_step (action_line act) = Some (mk_action Click (act_a act) 0))"
proof (intro conjI impI)
  show "buttons_ok (LoadMacros f)" by (rule LoadMacros_buttons)
  show "buttons_ok (fst (CreateMacro ms cin))" if "buttons_ok ms"
    using that by (rule CreateMacro_buttons)
  show "LoadMacros_line (acc, cur, True) l
          = (acc, cur\<lparr>actions := actions cur
               @ [mk_action Click (if button = ''right'' then 1 else 0) 0]\<rparr>, True)"
    if "line_token l = ''click'' \<and> extract_string (line_args l) = Some (button, r)"
    using that by (intro click_line_decoded) simp_all
  show "CreateMacro_loop macro (''click'' @ newline # answer @ newline # rest)
          = CreateMacro_loop
              (push_action macro (mk_action Click (if answer = ''right'' then 1 else 0) 0)) rest"
    if "newline \<notin> set answer"
    using that by (rule create_click_answer)
  show "action_line act = (if act_a act = 1 then ''click right'' else ''click left'')"
    if "act_type act = Click"
    using that by (rule click_action_line)
  show "decode_step (action_line act) = Some (mk_action Click (act_a act) 0)"
    if "act_type act = Click \<and> click_ok act"
    using that click_line_decodes [of act] by (simp add: click_ok_def)
qed

text \<open>
  The words \<open>banana\<close> and \<open>right\<close> in a file and the answers \<open>right\<close> and \<open>middle\<close> at
  the button prompt, with the codes they give.
\<close>

theorem click_buttons_witness:
  "LoadMacros_line ([], \<lparr>name = ''m'', actions = []\<rparr>, True) ''click banana''
     = ([], \<lparr>name = ''m'', actions = [mk_action Click 0 0]\<rparr>, True)
   \<and> LoadMacros_line ([], \<lparr>name = ''m'', actions = []\<rparr>, True) ''click right''
     = ([], \<lparr>name = ''m'', actions = [mk_action Click 1 0]\<rparr>, True)
   \<and> CreateMacro_loop \<lparr>name = ''nm'', actions = []\<rparr>
         (''click'' @ newline # ''right'' @ newline # ''click'' @ newline # ''middle'' @ newline # [])
     = (\<lparr>name = ''nm'', actions = [mk_action Click 1 0, mk_action Click 0 0]\<rparr>, [])
   \<and> LoadMacros (Some (''macro m'' @ [newline] @ ''click banana'' @ [newline]
         @ ''click right'' @ [newline]))
     = [\<lparr>name = ''m'', actions = [mk_action Click 0 0, mk_action Click 1 0]\<rparr>]
   \<and> buttons_ok (LoadMacros (Some (''macro m'' @ [newline] @ ''click banana'' @ [newline]
         @ ''click right'' @ [newline])))
   \<and> action_line (mk_action Click 1 0) = ''click right''
   \<and> decode_step (action_line (mk_action Click 1 0)) = Some (mk_action Click 1 0)"
proof -
  let ?f = "Some (''macro m'' @ [newline] @ ''click banana'' @ [newline]
         @ ''click right'' @ [newline])"
  let ?m = "\<lparr>name = ''m'', actions = []\<rparr>"
  let ?n = "\<lparr>name = ''nm'', actions = []\<rparr>"
  have tok: "line_token ''click banana'' = ''click''"
    "extract_string (line_args ''click banana'') = Some (''banana'', [])"
    "line_token ''click right'' = ''click''"
    "extract_string (line_args ''click right'') = Some (''right'', [])"
    by (simp_all add: line_token_def line_args_def first_token_def extract_string_def isspace_def)
  have nn: "newline \<notin> set ''right''" "newline \<notin> set ''middle''"
    by (simp_all add: newline_def)
  note t1 = click_buttons_left_or_right
    [where f = ?f and ms = "[]" and cin = "[]" and l = "''click banana''"
       and button = "''banana''" and r = "[]" and acc = "[]" and cur = ?m
       and answer = "''right''" and macro = ?n
       and rest = "''click'' @ newline # ''middle'' @ newline # []"
       and act = "mk_action Click 1 0"]
  note t2 = click_buttons_left_or_right
    [where f = ?f and ms = "[]" and cin = "[]" and l = "''click right''"
       and button = "''right''" and r = "[]" and acc = "[]" and cur = ?m
       and answer = "''middle''"
       and macro = "push_action ?n (mk_action Click 1 0)"
       and rest = "[]" and act = "mk_action Click 1 0"]
  from t1 tok have a: "LoadMacros_line ([], ?m, True) ''click banana''
     = ([], \<lparr>name = ''m'', actions = [mk_action Click 0 0]\<rparr>, True)"
    by simp
  from t2 tok have b: "LoadMacros_line ([], ?m, True) ''click right''
     = ([], \<lparr>name = ''m'', actions = [mk_action Click 1 0]\<rparr>, True)"
    by simp
  from t1 nn have c1: "CreateMacro_loop ?n
         (''click'' @ newline # ''right'' @ newline # ''click'' @ newline # ''middle'' @ newline # [])
     = CreateMacro_loop (push_action ?n (mk_action Click 1 0))
         (''click'' @ newline # ''middle'' @ newline # [])"
    by simp
  from t2 nn have c2: "CreateMacro_loop (push_action ?n (mk_action Click 1 0))
         (''click'' @ newline # ''middle'' @ newline # [])
     = CreateMacro_loop (push_action (push_action ?n (mk_action Click 1 0)) (mk_action Click 0 0)) []"
    by simp
  have c: "CreateMacro_loop ?n
         (''click'' @ newline # ''right'' @ newline # ''click'' @ newline # ''middle'' @ newline # [])
     = (\<lparr>name = ''nm'', actions = [mk_action Click 1 0, mk_action Click 0 0]\<rparr>, [])"
    unfolding c1 c2 by (simp add: CreateMacro_loop_Nil push_action_def)
  from t1 have d: "buttons_ok (LoadMacros ?f)" by (elim conjE)
  have e: "LoadMacros ?f = [\<lparr>name = ''m'', actions = [mk_action Click 0 0, mk_action Click 1 0]\<rparr>]"
    by (simp add: LoadMacros_lines decoder_eval)
  from t1 have g: "action_line (mk_action Click 1 0) = ''click right''"
    by (simp add: mk_action_def)
  note k6 = t1 [THEN conjunct2, THEN conjunct2, THEN conjunct2, THEN conjunct2, THEN conjunct2]
  from k6 have h: "decode_step (action_line (mk_action Click 1 0)) = Some (mk_action Click 1 0)"
    by (simp add: mk_action_def click_ok_def)
  from a b c d e g h show ?thesis by (intro conjI)
qed

end
